theory Spec2Isabelle
  imports Complex_Main
begin

section \<open>The bulk loader \<open>src/data/cargar_datos.py\<close>\<close>

text \<open>
  The script prompts for connection parameters, connects to MySQL, tries ten
  \<open>ALTER TABLE\<close> statements, fills eight tables with \<open>N = 1000\<close> random rows each and
  prints a summary.  Its collaborators are the console, Python's \<open>random\<close> module and
  the MySQL driver.  They are parameters of the model:
  \<^item> the random generator is a stream \<open>rnd\<close> of raw draws, read in order;
  \<^item> the driver is a function \<open>db\<close> from the history of calls and the next call to
    its reply (a value, or an exception raised);
  \<^item> the console is the record of the five strings typed.
  A theorem about every \<open>rnd\<close> and every \<open>db\<close> is a theorem about every run.
\<close>

subsection \<open>Exceptions\<close>

text \<open>
  \<open>Error\<close> is \<open>mysql.connector.Error\<close> with its message; the others are the
  built-in exceptions the script can meet, and \<open>Other_exception\<close> any further
  subclass of \<open>Exception\<close> a driver call may raise.  All of them are caught by
  \<open>except Exception\<close>; only \<open>Error\<close> is caught by \<open>except Error\<close>.
\<close>

datatype exn = Error string | ValueError | IndexError | Other_exception string

fun is_Error :: "exn \<Rightarrow> bool" where
  "is_Error (Error msg) = True"
| "is_Error e = False"

subsection \<open>Generation parameters (lines 48 to 51)\<close>

definition N :: nat where
  "N = 1000"

text \<open>
  \<open>NULL_RATIO = 0.10\<close> and \<open>LOW_VARIANCE_RATIO = 0.70\<close> are binary doubles; the
  fractions below are their exact values, so that a comparison with
  \<open>random.random()\<close> (a multiple of \<open>2 ^ -53\<close>) is the comparison Python makes.
\<close>

definition NULL_RATIO :: rat where
  "NULL_RATIO = 3602879701896397 / 36028797018963968"

definition LOW_VARIANCE_RATIO :: rat where
  "LOW_VARIANCE_RATIO = 3152519739159347 / 4503599627370496"

definition BATCH :: nat where
  "BATCH = 200"

subsection \<open>Python strings\<close>

text \<open>
  A \<open>str\<close> is a list of code points; every character of the script lies below 256,
  so \<open>char\<close> holds it.  \<open>isspace\<close> is \<open>str.isspace\<close> on that range.
\<close>

definition isspace :: "char \<Rightarrow> bool" where
  "isspace c = ((of_char c :: nat) \<in> {9, 10, 11, 12, 13, 28, 29, 30, 31, 32, 133, 160})"

definition strip :: "string \<Rightarrow> string" where
  "strip s = rev (dropWhile isspace (rev (dropWhile isspace s)))"

definition ascii_letters :: string where
  "ascii_letters = ''abcdefghijklmnopqrstuvwxyzABCDEFGHIJKLMNOPQRSTUVWXYZ''"

subsection \<open>The random module\<close>

text \<open>
  A computation that only draws random numbers threads the position in the stream
  and may raise.  One call of a \<open>random\<close> function reads one draw \<open>r\<close>:
  \<open>random.random()\<close> is \<open>(r mod 2 ^ 53) / 2 ^ 53\<close>, an index below \<open>n\<close> is
  \<open>r mod n\<close>.  Which draw gives which index is not modelled further (CPython uses
  rejection sampling and float multiplication); every index in range is reachable.
\<close>

type_synonym rnd = "nat \<Rightarrow> nat"

type_synonym 'a rand = "nat \<Rightarrow> (exn + 'a) \<times> nat"

definition rreturn :: "'a \<Rightarrow> 'a rand" where
  "rreturn x p = (Inr x, p)"

definition rraise :: "exn \<Rightarrow> 'a rand" where
  "rraise e p = (Inl e, p)"

definition rbind :: "'a rand \<Rightarrow> ('a \<Rightarrow> 'b rand) \<Rightarrow> 'b rand" where
  "rbind m f p = (case m p of (Inl e, p') \<Rightarrow> (Inl e, p') | (Inr x, p') \<Rightarrow> f x p')"

definition draw :: "rnd \<Rightarrow> nat rand" where
  "draw R p = (Inr (R p), Suc p)"

definition random_random :: "rnd \<Rightarrow> rat rand" where
  "random_random R = rbind (draw R) (\<lambda>r. rreturn (of_nat (r mod 2 ^ 53) / 2 ^ 53))"

definition randbelow :: "rnd \<Rightarrow> nat \<Rightarrow> nat rand" where
  "randbelow R n = rbind (draw R) (\<lambda>r. rreturn (r mod n))"

definition random_choice :: "rnd \<Rightarrow> 'a list \<Rightarrow> 'a rand" where
  "random_choice R seq =
     (if seq = [] then rraise IndexError
      else rbind (randbelow R (length seq)) (\<lambda>i. rreturn (seq ! i)))"

definition random_randint :: "rnd \<Rightarrow> int \<Rightarrow> int \<Rightarrow> int rand" where
  "random_randint R a b =
     (if b < a then rraise ValueError
      else rbind (randbelow R (nat (b + 1 - a))) (\<lambda>i. rreturn (a + int i)))"

fun random_choices :: "rnd \<Rightarrow> 'a list \<Rightarrow> nat \<Rightarrow> 'a list rand" where
  "random_choices R population 0 = rreturn []"
| "random_choices R population (Suc k) =
     rbind (randbelow R (length population)) (\<lambda>i.
     rbind (random_choices R population k) (\<lambda>rest.
     rreturn (population ! i # rest)))"

subsection \<open>Helpers (lines 55 to 67)\<close>

text \<open>
  \<open>random.choices(..., k=l)\<close> with a negative \<open>l\<close> returns the empty list, which
  \<open>nat l\<close> gives too.
\<close>

definition rand_text :: "rnd \<Rightarrow> int \<Rightarrow> int \<Rightarrow> string rand" where
  "rand_text R min_len max_len =
     rbind (random_randint R min_len max_len) (\<lambda>l.
     rbind (random_choices R (ascii_letters @ '' '') (nat l)) (\<lambda>cs.
     rreturn (strip cs)))"

definition maybe_null :: "rnd \<Rightarrow> 'a \<Rightarrow> 'a option rand" where
  "maybe_null R v =
     rbind (random_random R) (\<lambda>u. rreturn (if u < NULL_RATIO then None else Some v))"

text \<open>
  \<open>random_date(a, b).strftime(...)\<close> reads the clock twice and one draw; the date
  arithmetic is left uninterpreted: the value records the two offsets and the draw.
\<close>

datatype fecha = Strftime_random_date nat nat nat

definition random_date_str :: "rnd \<Rightarrow> nat \<Rightarrow> nat \<Rightarrow> fecha rand" where
  "random_date_str R start_days_ago end_days_ago =
     rbind (draw R) (\<lambda>r. rreturn (Strftime_random_date start_days_ago end_days_ago r))"

text \<open>
  A \<open>Decimal\<close> is either built from a literal or from
  \<open>str(round(random.uniform(a, b), 2))\<close>; the float arithmetic of the latter is left
  uninterpreted: the value records the bounds and the draw.
\<close>

datatype decimal = Decimal string | Decimal_str_round_uniform nat nat nat

definition decimal_uniform :: "rnd \<Rightarrow> nat \<Rightarrow> nat \<Rightarrow> decimal rand" where
  "decimal_uniform R a b = rbind (draw R) (\<lambda>r. rreturn (Decimal_str_round_uniform a b r))"

subsection \<open>Rows, driver calls and replies\<close>

text \<open>
  One constructor per \<open>INSERT\<close> statement of the script, with the tuple of
  parameters it is executed with.  Identifiers are the values of
  \<open>cursor.lastrowid\<close>.
\<close>

datatype row =
    Sede_row string "string option"
  | Docente_row "string option"
  | Clase_row "string option" nat
  | Matricula_row "decimal option" fecha
  | Alumno_row "string option" nat nat
  | Clase_has_sede_row nat nat
  | Pago_row fecha "decimal option" "string option" nat
  | Asistencia_row fecha nat nat nat

record config =
  user :: string
  password :: string
  host :: string
  port :: int
  database :: string
  raise_on_warnings :: bool

text \<open>
  The calls the script makes on the driver: \<open>mysql.connector.connect\<close>,
  \<open>conn.cursor()\<close>, \<open>cursor.execute\<close> of an \<open>ALTER\<close> text or of an \<open>INSERT\<close>
  with one row, \<open>cursor.executemany\<close> with a batch, \<open>conn.commit()\<close>,
  \<open>cursor.close()\<close>, \<open>conn.is_connected()\<close> and \<open>conn.close()\<close>.
\<close>

datatype call =
    Connect config
  | Cursor
  | Execute string
  | Execute_insert row
  | Executemany "row list"
  | Commit
  | Cursor_close
  | Is_connected
  | Close

text \<open>
  A call raises or returns.  The number returned is \<open>cursor.lastrowid\<close> after an
  \<open>INSERT\<close>, the truth value of \<open>conn.is_connected()\<close> (zero is false), and is not
  read after any other call.
\<close>

datatype reply = Raises exn | Returns nat

type_synonym event = "call \<times> reply"

record env =
  rnd :: rnd
  db :: "event list \<Rightarrow> call \<Rightarrow> reply"

subsection \<open>Printed lines\<close>

text \<open>
  One constructor per \<open>print\<close> of the script, with the numbers or the message its
  f-string shows.
\<close>

datatype line =
    Conectado nat
  | ALTERs_aplicados nat
  | No_se_aplicaron_ALTERs
  | Sedes_insertadas nat
  | Docentes_insertados nat
  | Clases_insertadas nat
  | Matriculas_insertadas nat
  | Alumnos_insertados nat
  | Relaciones_insertadas nat nat
  | Pagos_insertados nat
  | Asistencias_insertadas nat
  | Carga_masiva_finalizada
  | Resumen_sedes nat
  | Resumen_docentes nat
  | Resumen_clases nat
  | Resumen_matriculas nat
  | Resumen_alumnos nat
  | Resumen_clase_has_sede nat
  | Resumen_pagos nat
  | Resumen_asistencias nat
  | Error_durante_la_carga exn

subsection \<open>Program state and effects\<close>

text \<open>
  The state of a run: the driver calls made so far with their replies (oldest
  first), the lines printed, the position in the random stream, and whether the
  variables \<open>conn\<close> and \<open>cursor\<close> hold an object (they start as \<open>None\<close>).  A
  statement returns a value or raises; the state it reached is kept in both cases.
\<close>

record state =
  trace :: "event list"
  out :: "line list"
  rpos :: nat
  conn :: bool
  cursor :: bool

type_synonym 'a prog = "state \<Rightarrow> (exn + 'a) \<times> state"

definition return :: "'a \<Rightarrow> 'a prog" where
  "return x s = (Inr x, s)"

definition bind :: "'a prog \<Rightarrow> ('a \<Rightarrow> 'b prog) \<Rightarrow> 'b prog" where
  "bind m f s = (case m s of (Inl e, s') \<Rightarrow> (Inl e, s') | (Inr x, s') \<Rightarrow> f x s')"

definition lift_rand :: "'a rand \<Rightarrow> 'a prog" where
  "lift_rand m s = (case m (rpos s) of (r, p') \<Rightarrow> (r, s\<lparr>rpos := p'\<rparr>))"

definition db_call :: "env \<Rightarrow> call \<Rightarrow> nat prog" where
  "db_call E c s =
     (let r = db E (trace s) c; s' = s\<lparr>trace := trace s @ [(c, r)]\<rparr>
      in case r of Raises e \<Rightarrow> (Inl e, s') | Returns v \<Rightarrow> (Inr v, s'))"

definition commit :: "env \<Rightarrow> unit prog" where
  "commit E = bind (db_call E Commit) (\<lambda>_. return ())"

definition print_line :: "line \<Rightarrow> unit prog" where
  "print_line l s = (Inr (), s\<lparr>out := out s @ [l]\<rparr>)"

text \<open>\<open>for i in range(n)\<close> with the loop variables \<open>acc\<close>.\<close>

fun for_from :: "nat \<Rightarrow> nat \<Rightarrow> (nat \<Rightarrow> 'a \<Rightarrow> 'a prog) \<Rightarrow> 'a \<Rightarrow> 'a prog" where
  "for_from i 0 body acc = return acc"
| "for_from i (Suc k) body acc = bind (body i acc) (for_from (Suc i) k body)"

definition for_range :: "nat \<Rightarrow> (nat \<Rightarrow> 'a \<Rightarrow> 'a prog) \<Rightarrow> 'a \<Rightarrow> 'a prog" where
  "for_range n body acc = for_from 0 n body acc"

subsection \<open>Schema relaxation (lines 89 to 113)\<close>

definition alters :: "string list" where
  "alters =
    [''ALTER TABLE sede MODIFY nombre_sede VARCHAR(100) NULL'',
     ''ALTER TABLE sede MODIFY ubicacion VARCHAR(45) NULL'',
     ''ALTER TABLE docente MODIFY nombre_docente VARCHAR(45) NULL'',
     ''ALTER TABLE clase MODIFY nombre_clase VARCHAR(45) NULL'',
     ''ALTER TABLE alumno MODIFY nombre_alumno VARCHAR(45) NULL'',
     ''ALTER TABLE matricula MODIFY costo DECIMAL(10,2) NULL'',
     ''ALTER TABLE pago MODIFY periodo VARCHAR(7) NULL'',
     ''ALTER TABLE pago MODIFY valor_pago DECIMAL(10,2) NULL'',
     ''ALTER TABLE pago MODIFY fecha DATETIME NULL'',
     ''ALTER TABLE asistencia MODIFY fecha DATETIME NULL'']"

text \<open>
  One turn of \<open>for s in alters\<close>: the \<open>try\<close> runs \<open>cursor.execute(s)\<close> and counts
  it; \<open>except Exception: pass\<close> drops whatever it raised.
\<close>

definition alter_step :: "env \<Rightarrow> string \<Rightarrow> nat \<Rightarrow> nat prog" where
  "alter_step E stmt applied_alters s =
     (case db_call E (Execute stmt) s of
        (Inl e, s') \<Rightarrow> (Inr applied_alters, s')
      | (Inr _, s') \<Rightarrow> (Inr (applied_alters + 1), s'))"

fun alters_loop :: "env \<Rightarrow> string list \<Rightarrow> nat \<Rightarrow> nat prog" where
  "alters_loop E [] applied_alters = return applied_alters"
| "alters_loop E (stmt # rest) applied_alters =
     bind (alter_step E stmt applied_alters) (alters_loop E rest)"

definition schema_relaxation :: "env \<Rightarrow> unit prog" where
  "schema_relaxation E =
     bind (alters_loop E alters 0) (\<lambda>applied_alters.
     if applied_alters \<noteq> 0 then
       bind (commit E) (\<lambda>_. print_line (ALTERs_aplicados applied_alters))
     else print_line No_se_aplicaron_ALTERs)"

subsection \<open>Row values (the random part of each loop body)\<close>

definition o_acute :: string where
  "o_acute = [CHR 0xF3]"

definition e_acute :: string where
  "e_acute = [CHR 0xE9]"

definition i_acute :: string where
  "i_acute = [CHR 0xED]"

definition u_acute :: string where
  "u_acute = [CHR 0xFA]"

definition low_variance :: "rnd \<Rightarrow> bool rand" where
  "low_variance R = rbind (random_random R) (\<lambda>u. rreturn (u < LOW_VARIANCE_RATIO))"

definition sede_row :: "rnd \<Rightarrow> row rand" where
  "sede_row R =
     rbind (low_variance R) (\<lambda>common.
     rbind (if common then rreturn ''Sede Principal''
            else rbind (rand_text R 4 10) (\<lambda>t. rreturn (''Sede '' @ t))) (\<lambda>nombre.
     rbind (random_choice R [''A'', ''B'', ''C'', ''D'', ''E'']) (\<lambda>c.
     rbind (maybe_null R (''Ciudad '' @ c)) (\<lambda>ubicacion.
     rreturn (Sede_row nombre ubicacion)))))"

definition nombres_base :: "string list" where
  "nombres_base = [''Ana'', ''Juan'', ''Luis'', ''Marta'', ''Carolina'', ''Pedro'']"

definition docente_row :: "rnd \<Rightarrow> row rand" where
  "docente_row R =
     rbind (low_variance R) (\<lambda>common.
     rbind (if common then rreturn (''Profesor Com'' @ u_acute @ ''n'')
            else rbind (random_choice R nombres_base) (\<lambda>a.
                 rbind (random_choice R
                          [''G'' @ o_acute @ ''mez'', ''P'' @ e_acute @ ''rez'',
                           ''L'' @ o_acute @ ''pez'', ''Torres'', ''Ruiz'']) (\<lambda>b.
                 rreturn (a @ '' '' @ b)))) (\<lambda>nombre.
     rbind (maybe_null R nombre) (\<lambda>nombre.
     rreturn (Docente_row nombre))))"

definition deportes :: "string list" where
  "deportes = [''Voleibol'', ''F'' @ u_acute @ ''tbol'', ''Baloncesto'']"

definition clase_row :: "rnd \<Rightarrow> nat list \<Rightarrow> row rand" where
  "clase_row R docente_ids =
     rbind (low_variance R) (\<lambda>common.
     rbind (if common then random_choice R deportes else rand_text R 6 18) (\<lambda>nombre_clase.
     rbind (maybe_null R nombre_clase) (\<lambda>nombre_clase.
     rbind (random_choice R docente_ids) (\<lambda>docente_id.
     rreturn (Clase_row nombre_clase docente_id)))))"

definition matricula_row :: "rnd \<Rightarrow> row rand" where
  "matricula_row R =
     rbind (low_variance R) (\<lambda>common.
     rbind (if common then rreturn (Decimal ''100000.00'')
            else decimal_uniform R 50000 300000) (\<lambda>costo.
     rbind (maybe_null R costo) (\<lambda>costo.
     rbind (random_date_str R (365 * 2) 0) (\<lambda>fecha_pago.
     rreturn (Matricula_row costo fecha_pago)))))"

definition alumno_row :: "rnd \<Rightarrow> nat list \<Rightarrow> nat list \<Rightarrow> row rand" where
  "alumno_row R matricula_ids sede_ids =
     rbind (low_variance R) (\<lambda>common.
     rbind (if common then rreturn ''Estudiante Test''
            else rbind (random_choice R
                          [''Andr'' @ e_acute @ ''s'', ''Luc'' @ i_acute @ ''a'', ''Diego'',
                           ''Sof'' @ i_acute @ ''a'', ''Camila'', ''Miguel'']) (\<lambda>a.
                 rbind (random_choice R
                          [''G'' @ o_acute @ ''mez'', ''P'' @ e_acute @ ''rez'',
                           ''L'' @ o_acute @ ''pez'', ''Torres'']) (\<lambda>b.
                 rreturn (a @ '' '' @ b)))) (\<lambda>nombre_alumno.
     rbind (maybe_null R nombre_alumno) (\<lambda>nombre_alumno.
     rbind (random_choice R matricula_ids) (\<lambda>matricula_id.
     rbind (random_choice R sede_ids) (\<lambda>sede_id.
     rreturn (Alumno_row nombre_alumno matricula_id sede_id))))))"

definition clase_has_sede_row :: "rnd \<Rightarrow> nat list \<Rightarrow> nat list \<Rightarrow> row rand" where
  "clase_has_sede_row R clase_ids sede_ids =
     rbind (random_choice R clase_ids) (\<lambda>clase_id.
     rbind (random_choice R sede_ids) (\<lambda>sede_id.
     rreturn (Clase_has_sede_row clase_id sede_id)))"

definition periods :: "string list" where
  "periods = [''2025-01'', ''2025-02'', ''2025-03'', ''2025-04'', ''2025-05'']"

text \<open>The double \<open>0.15\<close> of line 225, exactly.\<close>

definition period_ratio :: rat where
  "period_ratio = 5404319552844595 / 36028797018963968"

definition pago_row :: "rnd \<Rightarrow> nat list \<Rightarrow> row rand" where
  "pago_row R alumno_ids =
     rbind (random_date_str R 365 0) (\<lambda>fecha.
     rbind (low_variance R) (\<lambda>common.
     rbind (if common then rreturn (Decimal ''50000.00'')
            else decimal_uniform R 20000 150000) (\<lambda>valor.
     rbind (random_random R) (\<lambda>u.
     rbind (if u > period_ratio then random_choice R periods else rand_text R 4 7) (\<lambda>periodo.
     rbind (maybe_null R valor) (\<lambda>valor.
     rbind (maybe_null R periodo) (\<lambda>periodo.
     rbind (random_choice R alumno_ids) (\<lambda>alumno_id.
     rreturn (Pago_row fecha valor periodo alumno_id)))))))))"

definition asistencia_row :: "rnd \<Rightarrow> nat list \<Rightarrow> nat list \<Rightarrow> nat list \<Rightarrow> row rand" where
  "asistencia_row R alumno_ids clase_ids sede_ids =
     rbind (random_date_str R 90 0) (\<lambda>fecha.
     rbind (random_choice R alumno_ids) (\<lambda>alumno_id.
     rbind (random_choice R clase_ids) (\<lambda>clase_id.
     rbind (random_choice R sede_ids) (\<lambda>sede_id.
     rreturn (Asistencia_row fecha alumno_id clase_id sede_id)))))"

subsection \<open>Tables filled one row at a time (lines 115 to 198)\<close>

text \<open>
  The five loops of sede, docente, clase, matricula and alumno differ in the row
  they build only.  One turn: build the row, \<open>cursor.execute\<close> the \<open>INSERT\<close>, append
  \<open>cursor.lastrowid\<close>, and commit when \<open>(i + 1) % BATCH == 0\<close>.  After the loop comes
  one more \<open>conn.commit()\<close>.
\<close>

definition insert_step :: "env \<Rightarrow> row rand \<Rightarrow> nat \<Rightarrow> nat list \<Rightarrow> nat list prog" where
  "insert_step E gen i ids =
     bind (lift_rand gen) (\<lambda>r.
     bind (db_call E (Execute_insert r)) (\<lambda>lastrowid.
     bind (if (i + 1) mod BATCH = 0 then commit E else return ()) (\<lambda>_.
     return (ids @ [lastrowid]))))"

definition insert_phase :: "env \<Rightarrow> row rand \<Rightarrow> nat \<Rightarrow> nat list prog" where
  "insert_phase E gen n =
     bind (for_range n (insert_step E gen) []) (\<lambda>ids.
     bind (commit E) (\<lambda>_.
     return ids))"

subsection \<open>The link table (lines 200 to 215)\<close>

text \<open>
  The \<open>try\<close> of one turn: the \<open>INSERT\<close>, the count, and a commit every \<open>BATCH\<close>
  rows; \<open>except Exception: pass\<close> drops what either call raised, and the count keeps
  the increment already made.
\<close>

definition link_attempt :: "env \<Rightarrow> row \<Rightarrow> nat \<Rightarrow> nat prog" where
  "link_attempt E r relaciones_insertadas s =
     (case db_call E (Execute_insert r) s of
        (Inl e, s1) \<Rightarrow> (Inr relaciones_insertadas, s1)
      | (Inr _, s1) \<Rightarrow>
          (let relaciones_insertadas = relaciones_insertadas + 1 in
           if relaciones_insertadas mod BATCH = 0 then
             (case db_call E Commit s1 of
                (Inl e, s2) \<Rightarrow> (Inr relaciones_insertadas, s2)
              | (Inr _, s2) \<Rightarrow> (Inr relaciones_insertadas, s2))
           else (Inr relaciones_insertadas, s1)))"

function link_loop :: "env \<Rightarrow> nat \<Rightarrow> nat list \<Rightarrow> nat list \<Rightarrow> nat \<Rightarrow> nat \<Rightarrow> (nat \<times> nat) prog" where
  "link_loop E n clase_ids sede_ids relaciones_insertadas intentos s =
     (if relaciones_insertadas < n \<and> intentos < n * 4 then
        (let intentos = intentos + 1 in
         case lift_rand (clase_has_sede_row (rnd E) clase_ids sede_ids) s of
           (Inl e, s1) \<Rightarrow> (Inl e, s1)
         | (Inr r, s1) \<Rightarrow>
             (case link_attempt E r relaciones_insertadas s1 of
                (Inl e, s2) \<Rightarrow> (Inl e, s2)
              | (Inr relaciones_insertadas, s2) \<Rightarrow>
                  link_loop E n clase_ids sede_ids relaciones_insertadas intentos s2))
      else (Inr (relaciones_insertadas, intentos), s))"
  by pat_completeness auto
termination
  by (relation "measure (\<lambda>(E, n, cs, ss, rel, intentos, s). n * 4 - intentos)") auto

definition link_phase :: "env \<Rightarrow> nat \<Rightarrow> nat list \<Rightarrow> nat list \<Rightarrow> (nat \<times> nat) prog" where
  "link_phase E n clase_ids sede_ids =
     bind (link_loop E n clase_ids sede_ids 0 0) (\<lambda>(relaciones_insertadas, intentos).
     bind (commit E) (\<lambda>_.
     bind (print_line (Relaciones_insertadas relaciones_insertadas intentos)) (\<lambda>_.
     return (relaciones_insertadas, intentos))))"

subsection \<open>Tables filled by batches (lines 217 to 259)\<close>

text \<open>
  The loops of pago and asistencia: the row is appended to the batch; a batch of
  \<open>BATCH\<close> rows is sent with \<open>executemany\<close>, counted, emptied and committed.  After
  the loop a non-empty batch is sent, counted and committed.
\<close>

definition batch_step :: "env \<Rightarrow> row rand \<Rightarrow> nat \<Rightarrow> nat \<times> row list \<Rightarrow> (nat \<times> row list) prog" where
  "batch_step E gen i = (\<lambda>(count, batch).
     bind (lift_rand gen) (\<lambda>r.
     let batch = batch @ [r] in
     if length batch \<ge> BATCH then
       bind (db_call E (Executemany batch)) (\<lambda>_.
       bind (commit E) (\<lambda>_.
       return (count + length batch, [])))
     else return (count, batch)))"

definition batch_phase :: "env \<Rightarrow> row rand \<Rightarrow> nat \<Rightarrow> nat prog" where
  "batch_phase E gen n =
     bind (for_range n (batch_step E gen) (0, [])) (\<lambda>(count, batch).
     if batch \<noteq> [] then
       bind (db_call E (Executemany batch)) (\<lambda>_.
       bind (commit E) (\<lambda>_.
       return (count + length batch)))
     else return count)"

subsection \<open>The body of the \<open>try\<close> (lines 83 to 270)\<close>

definition resumen :: "nat \<Rightarrow> nat \<Rightarrow> nat \<Rightarrow> nat \<Rightarrow> nat \<Rightarrow> nat \<Rightarrow> nat \<Rightarrow> nat \<Rightarrow> unit prog" where
  "resumen sedes docentes clases matriculas alumnos relaciones pagos asistencias =
     bind (print_line Carga_masiva_finalizada) (\<lambda>_.
     bind (print_line (Resumen_sedes sedes)) (\<lambda>_.
     bind (print_line (Resumen_docentes docentes)) (\<lambda>_.
     bind (print_line (Resumen_clases clases)) (\<lambda>_.
     bind (print_line (Resumen_matriculas matriculas)) (\<lambda>_.
     bind (print_line (Resumen_alumnos alumnos)) (\<lambda>_.
     bind (print_line (Resumen_clase_has_sede relaciones)) (\<lambda>_.
     bind (print_line (Resumen_pagos pagos)) (\<lambda>_.
     print_line (Resumen_asistencias asistencias)))))))))"

definition generation :: "env \<Rightarrow> nat \<Rightarrow> unit prog" where
  "generation E n =
     bind (insert_phase E (sede_row (rnd E)) n) (\<lambda>sede_ids.
     bind (print_line (Sedes_insertadas (length sede_ids))) (\<lambda>_.
     bind (insert_phase E (docente_row (rnd E)) n) (\<lambda>docente_ids.
     bind (print_line (Docentes_insertados (length docente_ids))) (\<lambda>_.
     bind (insert_phase E (clase_row (rnd E) docente_ids) n) (\<lambda>clase_ids.
     bind (print_line (Clases_insertadas (length clase_ids))) (\<lambda>_.
     bind (insert_phase E (matricula_row (rnd E)) n) (\<lambda>matricula_ids.
     bind (print_line (Matriculas_insertadas (length matricula_ids))) (\<lambda>_.
     bind (insert_phase E (alumno_row (rnd E) matricula_ids sede_ids) n) (\<lambda>alumno_ids.
     bind (print_line (Alumnos_insertados (length alumno_ids))) (\<lambda>_.
     bind (link_phase E n clase_ids sede_ids) (\<lambda>(relaciones_insertadas, intentos).
     bind (batch_phase E (pago_row (rnd E) alumno_ids) n) (\<lambda>pago_count.
     bind (print_line (Pagos_insertados pago_count)) (\<lambda>_.
     bind (batch_phase E (asistencia_row (rnd E) alumno_ids clase_ids sede_ids) n)
       (\<lambda>asistencia_count.
     bind (print_line (Asistencias_insertadas asistencia_count)) (\<lambda>_.
     resumen (length sede_ids) (length docente_ids) (length clase_ids)
       (length matricula_ids) (length alumno_ids) relaciones_insertadas pago_count
       asistencia_count)))))))))))))))"

definition connect :: "env \<Rightarrow> config \<Rightarrow> unit prog" where
  "connect E cfg =
     bind (db_call E (Connect cfg)) (\<lambda>_. (\<lambda>s. (Inr (), s\<lparr>conn := True\<rparr>)))"

definition get_cursor :: "env \<Rightarrow> unit prog" where
  "get_cursor E =
     bind (db_call E Cursor) (\<lambda>_. (\<lambda>s. (Inr (), s\<lparr>cursor := True\<rparr>)))"

definition try_body :: "env \<Rightarrow> config \<Rightarrow> unit prog" where
  "try_body E cfg =
     bind (connect E cfg) (\<lambda>_.
     bind (get_cursor E) (\<lambda>_.
     bind (print_line (Conectado N)) (\<lambda>_.
     bind (schema_relaxation E) (\<lambda>_.
     generation E N))))"

subsection \<open>Handler and cleanup (lines 272 to 278)\<close>

definition except_Error :: "unit prog \<Rightarrow> unit prog" where
  "except_Error m s =
     (case m s of
        (Inl e, s') \<Rightarrow> if is_Error e then print_line (Error_durante_la_carga e) s' else (Inl e, s')
      | (Inr x, s') \<Rightarrow> (Inr x, s'))"

definition cleanup :: "env \<Rightarrow> unit prog" where
  "cleanup E =
     bind (\<lambda>s. if cursor s then db_call E Cursor_close s else (Inr 0, s)) (\<lambda>_.
     (\<lambda>s. if conn s then
             bind (db_call E Is_connected) (\<lambda>connected.
             if connected \<noteq> 0 then bind (db_call E Close) (\<lambda>_. return ())
             else return ()) s
           else (Inr (), s)))"

text \<open>
  \<open>try: m finally: c\<close>: \<open>c\<close> runs whatever \<open>m\<close> did; what \<open>c\<close> raises replaces the
  outcome of \<open>m\<close>, otherwise the outcome of \<open>m\<close> stands.
\<close>

definition try_finally :: "'a prog \<Rightarrow> unit prog \<Rightarrow> 'a prog" where
  "try_finally m c s =
     (case m s of (r, s') \<Rightarrow>
        (case c s' of (Inl e, s'') \<Rightarrow> (Inl e, s'') | (Inr _, s'') \<Rightarrow> (r, s'')))"

subsection \<open>The prompts (lines 40 to 45) and the whole script\<close>

record console =
  in_user :: string
  in_password :: string
  in_host :: string
  in_port :: string
  in_database :: string

text \<open>\<open>input(...).strip() or default\<close>.\<close>

definition input_or :: "string \<Rightarrow> string \<Rightarrow> string" where
  "input_or typed dflt = (let t = strip typed in if t = [] then dflt else t)"

text \<open>
  \<open>int(s)\<close> on a string: surrounding whitespace is dropped, then an optional sign
  and decimal digits, with single underscores allowed between digits; anything else
  is a \<open>ValueError\<close> (\<open>None\<close> here).
\<close>

definition isdigit :: "char \<Rightarrow> bool" where
  "isdigit c = (48 \<le> (of_char c :: nat) \<and> (of_char c :: nat) \<le> 57)"

fun parse_digits :: "int \<Rightarrow> bool \<Rightarrow> string \<Rightarrow> int option" where
  "parse_digits acc prev_digit [] = (if prev_digit then Some acc else None)"
| "parse_digits acc prev_digit (c # cs) =
     (if isdigit c then parse_digits (acc * 10 + (of_char c - 48)) True cs
      else if c = CHR ''_'' \<and> prev_digit then parse_digits acc False cs
      else None)"

definition py_int :: "string \<Rightarrow> int option" where
  "py_int s =
     (case strip s of
        [] \<Rightarrow> None
      | c # cs \<Rightarrow>
          if c = CHR ''-'' then map_option uminus (parse_digits 0 False cs)
          else if c = CHR ''+'' then parse_digits 0 False cs
          else parse_digits 0 False (c # cs))"

definition init_state :: state where
  "init_state = \<lparr>trace = [], out = [], rpos = 0, conn = False, cursor = False\<rparr>"

definition make_config :: "console \<Rightarrow> int \<Rightarrow> config" where
  "make_config C p =
     \<lparr>user = input_or (in_user C) ''root'',
      password = in_password C,
      host = input_or (in_host C) ''localhost'',
      port = p,
      database = input_or (in_database C) ''mydb'',
      raise_on_warnings = True\<rparr>"

text \<open>
  The whole run.  \<open>int(port_input)\<close> is evaluated before the \<open>try\<close>: when it raises,
  nothing has been printed and no driver call has been made.  The result is
  \<open>Inr ()\<close> when the interpreter reaches the end of the file and \<open>Inl e\<close> when \<open>e\<close>
  is never caught.
\<close>

definition script :: "console \<Rightarrow> env \<Rightarrow> (exn + unit) \<times> state" where
  "script C E =
     (case py_int (input_or (in_port C) ''3306'') of
        None \<Rightarrow> (Inl ValueError, init_state)
      | Some p \<Rightarrow>
          try_finally (except_Error (try_body E (make_config C p))) (cleanup E) init_state)"


section \<open>Reading a run\<close>

subsection \<open>Tables, rows and identifiers in a trace\<close>

datatype table = Sede | Docente | Clase | Matricula | Alumno | Clase_has_sede | Pago | Asistencia

fun table_of :: "row \<Rightarrow> table" where
  "table_of (Sede_row nombre ubicacion) = Sede"
| "table_of (Docente_row nombre) = Docente"
| "table_of (Clase_row nombre docente_id) = Clase"
| "table_of (Matricula_row costo fecha_pago) = Matricula"
| "table_of (Alumno_row nombre matricula_id sede_id) = Alumno"
| "table_of (Clase_has_sede_row clase_id sede_id) = Clase_has_sede"
| "table_of (Pago_row fecha valor periodo alumno_id) = Pago"
| "table_of (Asistencia_row fecha alumno_id clase_id sede_id) = Asistencia"

text \<open>The place of a table in the order in which the script fills them.\<close>

fun phase_no :: "table \<Rightarrow> nat" where
  "phase_no Sede = 0"
| "phase_no Docente = 1"
| "phase_no Clase = 2"
| "phase_no Matricula = 3"
| "phase_no Alumno = 4"
| "phase_no Clase_has_sede = 5"
| "phase_no Pago = 6"
| "phase_no Asistencia = 7"

text \<open>The foreign keys of a row: the table referenced and the identifier used.\<close>

fun foreign_keys :: "row \<Rightarrow> (table \<times> nat) list" where
  "foreign_keys (Sede_row nombre ubicacion) = []"
| "foreign_keys (Docente_row nombre) = []"
| "foreign_keys (Clase_row nombre docente_id) = [(Docente, docente_id)]"
| "foreign_keys (Matricula_row costo fecha_pago) = []"
| "foreign_keys (Alumno_row nombre matricula_id sede_id) =
     [(Matricula, matricula_id), (Sede, sede_id)]"
| "foreign_keys (Clase_has_sede_row clase_id sede_id) = [(Clase, clase_id), (Sede, sede_id)]"
| "foreign_keys (Pago_row fecha valor periodo alumno_id) = [(Alumno, alumno_id)]"
| "foreign_keys (Asistencia_row fecha alumno_id clase_id sede_id) =
     [(Alumno, alumno_id), (Clase, clase_id), (Sede, sede_id)]"

text \<open>The rows a call sends to the store.\<close>

fun rows_of :: "call \<Rightarrow> row list" where
  "rows_of (Execute_insert r) = [r]"
| "rows_of (Executemany rs) = rs"
| "rows_of c = []"

text \<open>A call that returned (did not raise).\<close>

fun returned :: "event \<Rightarrow> bool" where
  "returned (c, Returns v) = True"
| "returned (c, Raises e) = False"

text \<open>
  \<open>inserted_ids T t\<close>: the values of \<open>cursor.lastrowid\<close> after the single-row
  inserts into \<open>T\<close> that returned, in order; this is what the script appends to its
  list of identifiers of \<open>T\<close>.  \<open>inserted_rows T t\<close>: the rows of \<open>T\<close> sent by a call
  that returned.  \<open>sent_rows T t\<close>: the rows of \<open>T\<close> sent by any call.
\<close>

fun event_ids :: "table \<Rightarrow> event \<Rightarrow> nat list" where
  "event_ids T (Execute_insert r, Returns v) = (if table_of r = T then [v] else [])"
| "event_ids T ev = []"

definition inserted_ids :: "table \<Rightarrow> event list \<Rightarrow> nat list" where
  "inserted_ids T t = concat (map (event_ids T) t)"

definition event_sent :: "table \<Rightarrow> event \<Rightarrow> row list" where
  "event_sent T ev = filter (\<lambda>r. table_of r = T) (rows_of (fst ev))"

definition sent_rows :: "table \<Rightarrow> event list \<Rightarrow> row list" where
  "sent_rows T t = concat (map (event_sent T) t)"

definition inserted_rows :: "table \<Rightarrow> event list \<Rightarrow> row list" where
  "inserted_rows T t = sent_rows T (filter returned t)"

text \<open>
  A row sent after the calls \<open>pre\<close> respects referential integrity for a run with
  \<open>n\<close> rows per table when each of its foreign keys is one of the identifiers
  collected for the referenced table, and all \<open>n\<close> of them have been collected.
\<close>

definition fk_ok :: "nat \<Rightarrow> event list \<Rightarrow> row \<Rightarrow> bool" where
  "fk_ok n pre r =
     list_all (\<lambda>(T, v). v \<in> set (inserted_ids T pre) \<and> length (inserted_ids T pre) = n)
       (foreign_keys r)"

definition referential :: "nat \<Rightarrow> event list \<Rightarrow> bool" where
  "referential n t =
     (\<forall>i < length t. list_all (fk_ok n (take i t)) (rows_of (fst (t ! i))))"

text \<open>Rows are sent in the order of the tables.\<close>

definition in_order :: "event list \<Rightarrow> bool" where
  "in_order t =
     (\<forall>j < length t. \<forall>i \<le> j.
        \<forall>r \<in> set (rows_of (fst (t ! i))). \<forall>r' \<in> set (rows_of (fst (t ! j))).
          phase_no (table_of r) \<le> phase_no (table_of r'))"

subsection \<open>Invariants of a run\<close>

text \<open>
  The lines of the final report: the summary and the error line.  None of them is
  printed before generation has ended.
\<close>

fun final_line :: "line \<Rightarrow> bool" where
  "final_line Carga_masiva_finalizada = True"
| "final_line (Resumen_sedes k) = True"
| "final_line (Resumen_docentes k) = True"
| "final_line (Resumen_clases k) = True"
| "final_line (Resumen_matriculas k) = True"
| "final_line (Resumen_alumnos k) = True"
| "final_line (Resumen_clase_has_sede k) = True"
| "final_line (Resumen_pagos k) = True"
| "final_line (Resumen_asistencias k) = True"
| "final_line (Error_durante_la_carga e) = True"
| "final_line l = False"

text \<open>
  The calls whose exceptions reach the outer handler.  An \<open>ALTER\<close> and the insert of
  a link row run inside a \<open>try\<close> with \<open>except Exception: pass\<close>.  (A commit does so
  only inside the link loop; the commits that raise up to the handler are the others.)
\<close>

fun unabsorbed :: "call \<Rightarrow> bool" where
  "unabsorbed (Execute stmt) = False"
| "unabsorbed (Execute_insert (Clase_has_sede_row clase_id sede_id)) = False"
| "unabsorbed c = True"

text \<open>
  \<open>origin E e t\<close>: the exception \<open>e\<close> was raised by the last call of \<open>t\<close>, that
  call is not an absorbed one, and raising is what the driver answers there.
\<close>

definition origin :: "env \<Rightarrow> exn \<Rightarrow> event list \<Rightarrow> bool" where
  "origin E e t =
     (t \<noteq> [] \<and> snd (last t) = Raises e \<and> unabsorbed (fst (last t)) \<and>
      db E (butlast t) (fst (last t)) = Raises e)"

text \<open>
  What holds at every moment of generation: referential integrity, the order of
  the tables, and no line of the final report printed yet.
\<close>

definition good :: "nat \<Rightarrow> event list \<Rightarrow> line list \<Rightarrow> bool" where
  "good n t ls = (referential n t \<and> in_order t \<and> \<not> list_ex final_line ls)"

abbreviation minv :: "nat \<Rightarrow> state \<Rightarrow> bool" where
  "minv n s \<equiv> good n (trace s) (out s)"

text \<open>
  \<open>know k ids cnt t\<close>: the tables before place \<open>k\<close> are done, \<open>cnt\<close> gives the
  number of their rows inserted and, for the five parent tables, \<open>ids\<close> the list of
  identifiers collected; no row of a table after place \<open>k\<close> has been sent.
  \<open>staged\<close> adds that the table at place \<open>k\<close> has not been started.
\<close>

definition know :: "nat \<Rightarrow> (table \<Rightarrow> nat list) \<Rightarrow> (table \<Rightarrow> nat) \<Rightarrow> event list \<Rightarrow> bool" where
  "know k ids cnt t =
     (\<forall>T. (phase_no T < k \<longrightarrow> length (inserted_rows T t) = cnt T \<and>
               (phase_no T < 5 \<longrightarrow> inserted_ids T t = ids T)) \<and>
          (k < phase_no T \<longrightarrow> sent_rows T t = []))"

definition staged ::
  "nat \<Rightarrow> nat \<Rightarrow> (table \<Rightarrow> nat list) \<Rightarrow> (table \<Rightarrow> nat) \<Rightarrow> event list \<Rightarrow> line list \<Rightarrow> bool" where
  "staged n k ids cnt t ls =
     (good n t ls \<and> know k ids cnt t \<and> (\<forall>T. phase_no T = k \<longrightarrow> sent_rows T t = []))"

abbreviation stage :: "nat \<Rightarrow> nat \<Rightarrow> (table \<Rightarrow> nat list) \<Rightarrow> (table \<Rightarrow> nat) \<Rightarrow> state \<Rightarrow> bool" where
  "stage n k ids cnt s \<equiv> staged n k ids cnt (trace s) (out s)"

text \<open>
  The foreign keys of a row are among the identifiers \<open>ids\<close> of parent tables that
  come earlier and hold \<open>n\<close> identifiers each.
\<close>

definition fk_known :: "nat \<Rightarrow> (table \<Rightarrow> nat list) \<Rightarrow> row \<Rightarrow> bool" where
  "fk_known n ids r =
     list_all (\<lambda>(T, v). phase_no T < phase_no (table_of r) \<and> phase_no T < 5 \<and>
                 v \<in> set (ids T) \<and> length (ids T) = n)
       (foreign_keys r)"

text \<open>A random computation that never raises, with a property of its result.\<close>

definition rtotal :: "('a \<Rightarrow> bool) \<Rightarrow> 'a rand \<Rightarrow> bool" where
  "rtotal P m = (\<forall>p. case m p of (Inr x, p') \<Rightarrow> P x | (Inl e, p') \<Rightarrow> False)"

text \<open>
  Hoare triples for statements that may raise: from a state satisfying \<open>P\<close>, a
  normal end with value \<open>x\<close> satisfies \<open>Q x\<close> and an exception \<open>e\<close> leaves a state
  satisfying \<open>X e\<close>.
\<close>

definition triple ::
  "(state \<Rightarrow> bool) \<Rightarrow> 'a prog \<Rightarrow> ('a \<Rightarrow> state \<Rightarrow> bool) \<Rightarrow> (exn \<Rightarrow> state \<Rightarrow> bool) \<Rightarrow> bool" where
  "triple P m Q X = (\<forall>s. P s \<longrightarrow> (case m s of (Inl e, s') \<Rightarrow> X e s' | (Inr x, s') \<Rightarrow> Q x s'))"

text \<open>
  The state of the log when generation has run to its end: the summary is the last
  thing printed, with \<open>n\<close> for seven tables and the number \<open>rel\<close> of link rows, and
  these are the numbers of rows inserted.
\<close>

definition completed :: "nat \<Rightarrow> event list \<Rightarrow> line list \<Rightarrow> bool" where
  "completed n t ls =
     (referential n t \<and> in_order t \<and>
      (\<exists>before rel. ls = before @
          [Carga_masiva_finalizada, Resumen_sedes n, Resumen_docentes n, Resumen_clases n,
           Resumen_matriculas n, Resumen_alumnos n, Resumen_clase_has_sede rel,
           Resumen_pagos n, Resumen_asistencias n] \<and>
         \<not> list_ex final_line before \<and> rel \<le> n \<and>
         (\<forall>T. length (inserted_rows T t) = (if T = Clase_has_sede then rel else n))))"

text \<open>Before generation starts: no row has been sent.\<close>

definition unsent_log :: "nat \<Rightarrow> event list \<Rightarrow> line list \<Rightarrow> bool" where
  "unsent_log n t ls = (good n t ls \<and> (\<forall>T. sent_rows T t = []))"

abbreviation unsent :: "nat \<Rightarrow> state \<Rightarrow> bool" where
  "unsent n s \<equiv> unsent_log n (trace s) (out s)"

fun gen_call :: "call \<Rightarrow> bool" where
  "gen_call (Execute_insert r) = True"
| "gen_call (Executemany rs) = True"
| "gen_call Commit = True"
| "gen_call (Execute stmt) = True"
| "gen_call c = False"

definition extends :: "state \<Rightarrow> state \<Rightarrow> bool" where
  "extends s s' =
     (conn s' = conn s \<and> cursor s' = cursor s \<and>
      (\<exists>u. trace s' = trace s @ u \<and> list_all (\<lambda>ev. gen_call (fst ev)) u) \<and>
      (\<exists>ls. out s' = out s @ ls))"

definition grows :: "'a prog \<Rightarrow> bool" where
  "grows m = (\<forall>s. extends s (snd (m s)))"

fun cleanup_call :: "call \<Rightarrow> bool" where
  "cleanup_call Cursor_close = True"
| "cleanup_call Is_connected = True"
| "cleanup_call Close = True"
| "cleanup_call c = False"

definition flags_ok :: "config \<Rightarrow> state \<Rightarrow> bool" where
  "flags_ok cfg s =
     ((conn s \<longleftrightarrow> (\<exists>v. (Connect cfg, Returns v) \<in> set (trace s))) \<and>
      (cursor s \<longleftrightarrow> (\<exists>v. (Cursor, Returns v) \<in> set (trace s))))"

definition always :: "nat \<Rightarrow> rnd" where
  "always k p = k"

definition db_always :: "reply \<Rightarrow> event list \<Rightarrow> call \<Rightarrow> reply" where
  "db_always rep h c = rep"

definition console_defaults :: console where
  "console_defaults =
     \<lparr>in_user = '''', in_password = ''secret'', in_host = '''', in_port = '''', in_database = ''''\<rparr>"

section \<open>Properties\<close>

subsection \<open>Random helpers\<close>

lemma strip_length_le: "length (strip s) \<le> length s"
proof -
  have "length (strip s) \<le> length (dropWhile isspace s)"
    unfolding strip_def using length_dropWhile_le [of isspace "rev (dropWhile isspace s)"]
    by simp
  also have "\<dots> \<le> length s"
    by (rule length_dropWhile_le)
  finally show ?thesis .
qed

lemma random_choices_length:
  "\<exists>cs p'. random_choices R population k p = (Inr cs, p') \<and> length cs = k \<and> p' = p + k"
proof (induction k arbitrary: p)
  case 0
  show ?case by (simp add: rreturn_def)
next
  case (Suc k)
  obtain cs p' where "random_choices R population k (Suc p) = (Inr cs, p')"
    and "length cs = k" and "p' = Suc p + k"
    using Suc [of "Suc p"] by blast
  then show ?case
    by (simp add: rbind_def randbelow_def draw_def rreturn_def)
qed

lemma random_randint_range:
  assumes "a \<le> b"
  shows "\<exists>l. random_randint R a b p = (Inr l, Suc p) \<and> a \<le> l \<and> l \<le> b"
proof -
  have "int (R p mod nat (b + 1 - a)) < b + 1 - a"
    using assms by (simp add: zless_nat_eq_int_zless [symmetric])
  then show ?thesis
    using assms by (simp add: random_randint_def rbind_def randbelow_def draw_def rreturn_def)
qed

subsection \<open>Invariants of generation\<close>

lemma inserted_ids_append [simp]:
  "inserted_ids T (t @ u) = inserted_ids T t @ inserted_ids T u"
  by (simp add: inserted_ids_def)

lemma sent_rows_append [simp]: "sent_rows T (t @ u) = sent_rows T t @ sent_rows T u"
  by (simp add: sent_rows_def)

lemma inserted_rows_append [simp]:
  "inserted_rows T (t @ u) = inserted_rows T t @ inserted_rows T u"
  by (simp add: inserted_rows_def)

lemma inserted_ids_Nil [simp]: "inserted_ids T [] = []"
  by (simp add: inserted_ids_def)

lemma sent_rows_Nil [simp]: "sent_rows T [] = []"
  by (simp add: sent_rows_def)

lemma inserted_rows_Nil [simp]: "inserted_rows T [] = []"
  by (simp add: inserted_rows_def)

lemma inserted_ids_Cons [simp]:
  "inserted_ids T (ev # t) = event_ids T ev @ inserted_ids T t"
  by (simp add: inserted_ids_def)

lemma sent_rows_Cons [simp]: "sent_rows T (ev # t) = event_sent T ev @ sent_rows T t"
  by (simp add: sent_rows_def)

lemma inserted_rows_Cons [simp]:
  "inserted_rows T (ev # t) = (if returned ev then event_sent T ev else []) @ inserted_rows T t"
  by (simp add: inserted_rows_def)

lemma event_sent_simps [simp]:
  "event_sent T (Execute_insert r, rep) = (if table_of r = T then [r] else [])"
  "event_sent T (Executemany rs, rep) = filter (\<lambda>r. table_of r = T) rs"
  "event_sent T (Commit, rep) = []"
  "event_sent T (Execute stmt, rep) = []"
  "event_sent T (Connect cfg, rep) = []"
  "event_sent T (Cursor, rep) = []"
  "event_sent T (Cursor_close, rep) = []"
  "event_sent T (Is_connected, rep) = []"
  "event_sent T (Close, rep) = []"
  by (simp_all add: event_sent_def)

lemma referential_Nil [simp]: "referential n []"
  by (simp add: referential_def)

lemma referential_snoc:
  "referential n (t @ [ev]) \<longleftrightarrow> referential n t \<and> list_all (fk_ok n t) (rows_of (fst ev))"
  by (auto simp: referential_def nth_append less_Suc_eq)

lemma in_order_Nil [simp]: "in_order []"
  by (simp add: in_order_def)

lemma sent_rows_iff:
  "r \<in> set (sent_rows T t) \<longleftrightarrow>
     (\<exists>i < length t. r \<in> set (rows_of (fst (t ! i)))) \<and> table_of r = T"
proof -
  have "r \<in> set (sent_rows T t) \<longleftrightarrow>
          (\<exists>ev \<in> set t. r \<in> set (rows_of (fst ev))) \<and> table_of r = T"
    by (auto simp: sent_rows_def event_sent_def)
  also have "(\<exists>ev \<in> set t. r \<in> set (rows_of (fst ev))) \<longleftrightarrow>
          (\<exists>i < length t. r \<in> set (rows_of (fst (t ! i))))"
    by (metis in_set_conv_nth)
  finally show ?thesis .
qed

lemma in_order_snoc:
  "in_order (t @ [ev]) \<longleftrightarrow>
     in_order t \<and>
     (\<forall>r \<in> set (rows_of (fst ev)). \<forall>r' \<in> set (rows_of (fst ev)).
        phase_no (table_of r) \<le> phase_no (table_of r')) \<and>
     (\<forall>T r. r \<in> set (sent_rows T t) \<longrightarrow>
        (\<forall>r' \<in> set (rows_of (fst ev)). phase_no T \<le> phase_no (table_of r')))"
  (is "?L \<longleftrightarrow> ?A \<and> ?B \<and> ?C")
proof
  assume L: ?L
  have A: ?A
    unfolding in_order_def
  proof (intro allI impI ballI)
    fix j i r r'
    assume "j < length t" "i \<le> j" "r \<in> set (rows_of (fst (t ! i)))"
      "r' \<in> set (rows_of (fst (t ! j)))"
    then show "phase_no (table_of r) \<le> phase_no (table_of r')"
      using L [unfolded in_order_def, rule_format, of j i r r'] by (simp add: nth_append)
  qed
  have B: ?B
    using L [unfolded in_order_def, rule_format, of "length t" "length t"] by simp
  have C: ?C
  proof (intro allI impI ballI)
    fix T r r'
    assume "r \<in> set (sent_rows T t)" "r' \<in> set (rows_of (fst ev))"
    then obtain i where "i < length t" "r \<in> set (rows_of (fst (t ! i)))" "table_of r = T"
      by (auto simp: sent_rows_iff)
    then show "phase_no T \<le> phase_no (table_of r')"
      using L [unfolded in_order_def, rule_format, of "length t" i r r']
        \<open>r' \<in> set (rows_of (fst ev))\<close>
      by (simp add: nth_append)
  qed
  from A B C show "?A \<and> ?B \<and> ?C" by blast
next
  assume R: "?A \<and> ?B \<and> ?C"
  show ?L
    unfolding in_order_def
  proof (intro allI impI ballI)
    fix j i r r'
    assume j: "j < length (t @ [ev])" and i: "i \<le> j"
      and r: "r \<in> set (rows_of (fst ((t @ [ev]) ! i)))"
      and r': "r' \<in> set (rows_of (fst ((t @ [ev]) ! j)))"
    show "phase_no (table_of r) \<le> phase_no (table_of r')"
    proof (cases "j < length t")
      case True
      with R i r r' show ?thesis
        unfolding in_order_def by (auto simp: nth_append)
    next
      case False
      then have jl: "j = length t" using j by simp
      show ?thesis
      proof (cases "i < length t")
        case True
        then have "r \<in> set (sent_rows (table_of r) t)"
          using r by (auto simp: sent_rows_iff nth_append)
        with R r' jl show ?thesis by auto
      next
        case False
        then have "i = length t" using i jl by simp
        with R r r' jl show ?thesis by auto
      qed
    qed
  qed
qed

lemma tripleI:
  assumes "\<And>s x s'. P s \<Longrightarrow> m s = (Inr x, s') \<Longrightarrow> Q x s'"
    and "\<And>s e s'. P s \<Longrightarrow> m s = (Inl e, s') \<Longrightarrow> X e s'"
  shows "triple P m Q X"
  unfolding triple_def
proof (intro allI impI)
  fix s
  assume P: "P s"
  obtain r s' where ms: "m s = (r, s')"
    by (cases "m s")
  show "case m s of (Inl e, s') \<Rightarrow> X e s' | (Inr x, s') \<Rightarrow> Q x s'"
  proof (cases r)
    case (Inl e)
    with assms(2) [OF P] ms show ?thesis by simp
  next
    case (Inr x)
    with assms(1) [OF P] ms show ?thesis by simp
  qed
qed

lemma triple_Inr:
  assumes "triple P m Q X" and "P s" and "m s = (Inr x, s')"
  shows "Q x s'"
proof -
  from assms(1) have "P s \<longrightarrow> (case m s of (Inl e, s') \<Rightarrow> X e s' | (Inr x, s') \<Rightarrow> Q x s')"
    unfolding triple_def by (rule spec)
  then have "case m s of (Inl e, s') \<Rightarrow> X e s' | (Inr x, s') \<Rightarrow> Q x s'"
    using assms(2) by (rule mp)
  with assms(3) show ?thesis by simp
qed

lemma triple_Inl:
  assumes "triple P m Q X" and "P s" and "m s = (Inl e, s')"
  shows "X e s'"
proof -
  from assms(1) have "P s \<longrightarrow> (case m s of (Inl e, s') \<Rightarrow> X e s' | (Inr x, s') \<Rightarrow> Q x s')"
    unfolding triple_def by (rule spec)
  then have "case m s of (Inl e, s') \<Rightarrow> X e s' | (Inr x, s') \<Rightarrow> Q x s'"
    using assms(2) by (rule mp)
  with assms(3) show ?thesis by simp
qed

lemma triple_return: "triple (Q x) (return x) Q X"
  by (rule tripleI) (simp_all add: return_def)

lemma triple_bind:
  assumes f: "\<And>x. triple (R x) (f x) Q X" and m: "triple P m R X"
  shows "triple P (bind m f) Q X"
proof (rule tripleI)
  fix s x s'
  assume P: "P s" and b: "bind m f s = (Inr x, s')"
  obtain r s1 where ms: "m s = (r, s1)"
    by (cases "m s")
  show "Q x s'"
  proof (cases r)
    case (Inl e)
    with ms b show ?thesis by (simp add: bind_def)
  next
    case (Inr y)
    with ms b have "f y s1 = (Inr x, s')" by (simp add: bind_def)
    moreover have "R y s1" using triple_Inr [OF m P] ms Inr by simp
    ultimately show ?thesis by (rule triple_Inr [OF f, rotated])
  qed
next
  fix s e s'
  assume P: "P s" and b: "bind m f s = (Inl e, s')"
  obtain r s1 where ms: "m s = (r, s1)"
    by (cases "m s")
  show "X e s'"
  proof (cases r)
    case (Inl e')
    with ms b have "m s = (Inl e, s')" by (simp add: bind_def)
    then show ?thesis by (rule triple_Inl [OF m P])
  next
    case (Inr y)
    with ms b have "f y s1 = (Inl e, s')" by (simp add: bind_def)
    moreover have "R y s1" using triple_Inr [OF m P] ms Inr by simp
    ultimately show ?thesis by (rule triple_Inl [OF f, rotated])
  qed
qed

lemma triple_pre:
  assumes "triple P' m Q X" and "\<And>s. P s \<Longrightarrow> P' s"
  shows "triple P m Q X"
proof (rule tripleI)
  fix s x s' assume "P s" and "m s = (Inr x, s')"
  then show "Q x s'" using triple_Inr [OF assms(1)] assms(2) by blast
next
  fix s e s' assume "P s" and "m s = (Inl e, s')"
  then show "X e s'" using triple_Inl [OF assms(1)] assms(2) by blast
qed

lemma triple_post:
  assumes "triple P m Q' X'" and "\<And>x s. Q' x s \<Longrightarrow> Q x s" and "\<And>e s. X' e s \<Longrightarrow> X e s"
  shows "triple P m Q X"
proof (rule tripleI)
  fix s x s' assume "P s" and "m s = (Inr x, s')"
  then show "Q x s'" using triple_Inr [OF assms(1)] assms(2) by blast
next
  fix s e s' assume "P s" and "m s = (Inl e, s')"
  then show "X e s'" using triple_Inl [OF assms(1)] assms(3) by blast
qed

lemma triple_if:
  assumes "triple P1 a Q X" and "triple P2 b Q X"
  shows "triple (\<lambda>s. if c then P1 s else P2 s) (if c then a else b) Q X"
  using assms by simp

lemma triple_print:
  "triple (\<lambda>s. Q () (s\<lparr>out := out s @ [l]\<rparr>)) (print_line l) Q X"
  by (rule tripleI) (auto simp: print_line_def)

lemma triple_db_call:
  "triple (\<lambda>s. case db E (trace s) c of
                 Raises e \<Rightarrow> X e (s\<lparr>trace := trace s @ [(c, Raises e)]\<rparr>)
               | Returns v \<Rightarrow> Q v (s\<lparr>trace := trace s @ [(c, Returns v)]\<rparr>))
          (db_call E c) Q X"
  by (rule tripleI) (auto simp: db_call_def Let_def split: reply.splits)

lemma triple_commit:
  "triple (\<lambda>s. case db E (trace s) Commit of
                 Raises e \<Rightarrow> X e (s\<lparr>trace := trace s @ [(Commit, Raises e)]\<rparr>)
               | Returns v \<Rightarrow> Q () (s\<lparr>trace := trace s @ [(Commit, Returns v)]\<rparr>))
          (commit E) Q X"
  unfolding commit_def
  by (rule triple_bind [OF triple_return triple_db_call])

lemma triple_lift_rand:
  "triple (\<lambda>s. case gen (rpos s) of
                 (Inl e, p) \<Rightarrow> X e (s\<lparr>rpos := p\<rparr>)
               | (Inr x, p) \<Rightarrow> Q x (s\<lparr>rpos := p\<rparr>))
          (lift_rand gen) Q X"
  by (rule tripleI) (auto simp: lift_rand_def split: prod.splits sum.splits)

lemma triple_for_from:
  assumes "\<And>i acc. triple (I i acc) (body i acc) (I (Suc i)) X"
  shows "triple (I i acc) (for_from i k body acc) (I (i + k)) X"
proof (induction k arbitrary: i acc)
  case 0
  show ?case using triple_return [of "I i" acc X] by simp
next
  case (Suc k)
  have "triple (I i acc) (bind (body i acc) (for_from (Suc i) k body)) (I (Suc i + k)) X"
    by (rule triple_bind [OF Suc assms])
  then show ?case by simp
qed

lemma origin_snoc:
  "origin E e (h @ [(c, rep)]) \<longleftrightarrow> rep = Raises e \<and> unabsorbed c \<and> db E h c = Raises e"
  by (auto simp: origin_def)

lemma phase_no_inj: "phase_no T = phase_no T' \<Longrightarrow> T = T'"
  by (cases T; cases T') simp_all

lemma unabsorbed_insert: "table_of r \<noteq> Clase_has_sede \<Longrightarrow> unabsorbed (Execute_insert r)"
  by (cases r) simp_all

lemma event_ids_sent: "event_sent T ev = [] \<Longrightarrow> event_ids T ev = []"
proof (cases ev)
  case (Pair c rep)
  assume "event_sent T ev = []"
  with Pair show ?thesis
    by (cases c; cases rep) (auto split: if_splits)
qed

lemma not_sent_ids: "sent_rows T t = [] \<Longrightarrow> inserted_ids T t = []"
  by (induction t) (simp_all add: event_ids_sent)

lemma not_sent_rows: "sent_rows T t = [] \<Longrightarrow> inserted_rows T t = []"
  by (induction t) simp_all

lemma rtotalD:
  assumes "rtotal P m"
  shows "\<exists>x p'. m p = (Inr x, p') \<and> P x"
proof -
  from assms have "case m p of (Inr x, p') \<Rightarrow> P x | (Inl e, p') \<Rightarrow> False"
    unfolding rtotal_def by (rule spec)
  then show ?thesis
    by (cases "m p") (auto split: sum.splits)
qed

text \<open>Events whose rows all belong to the table being filled leave the other tables alone.\<close>

lemma know_append:
  assumes "\<forall>ev \<in> set u. \<forall>r \<in> set (rows_of (fst ev)). phase_no (table_of r) = k"
  shows "know k ids cnt (t @ u) = know k ids cnt t"
proof -
  have "event_sent T ev = []" if "ev \<in> set u" and "phase_no T \<noteq> k" for T ev
    using assms that by (auto simp: event_sent_def filter_empty_conv)
  then have sent: "sent_rows T u = []" if "phase_no T \<noteq> k" for T
    using that by (auto simp: sent_rows_def)
  have ins: "inserted_rows T u = []" and ids: "inserted_ids T u = []" if "phase_no T \<noteq> k" for T
    using sent [OF that] by (simp_all add: not_sent_rows not_sent_ids)
  have "(phase_no T < k \<longrightarrow> length (inserted_rows T (t @ u)) = cnt T \<and>
           (phase_no T < 5 \<longrightarrow> inserted_ids T (t @ u) = ids T)) \<and>
        (k < phase_no T \<longrightarrow> sent_rows T (t @ u) = []) \<longleftrightarrow>
        (phase_no T < k \<longrightarrow> length (inserted_rows T t) = cnt T \<and>
           (phase_no T < 5 \<longrightarrow> inserted_ids T t = ids T)) \<and>
        (k < phase_no T \<longrightarrow> sent_rows T t = [])" for T
  proof (cases "phase_no T = k")
    case True
    then show ?thesis by simp
  next
    case False
    then show ?thesis by (simp add: sent ins ids)
  qed
  then show ?thesis
    unfolding know_def by simp
qed

lemma good_send:
  assumes "good n t ls" and "know k ids cnt t"
    and "\<forall>r \<in> set (rows_of c). phase_no (table_of r) = k \<and> fk_known n ids r"
  shows "good n (t @ [(c, rep)]) ls"
proof -
  have "fk_ok n t r" if "r \<in> set (rows_of c)" for r
  proof -
    have "fk_known n ids r" and "phase_no (table_of r) = k"
      using assms(3) that by blast+
    then show ?thesis
      using assms(2) unfolding fk_ok_def fk_known_def know_def list_all_iff by fastforce
  qed
  then have 1: "list_all (fk_ok n t) (rows_of c)"
    by (simp add: list_all_iff)
  have 2: "\<forall>r \<in> set (rows_of c). \<forall>r' \<in> set (rows_of c).
             phase_no (table_of r) \<le> phase_no (table_of r')"
    using assms(3) by simp
  have 3: "phase_no T \<le> phase_no (table_of r')"
    if "r \<in> set (sent_rows T t)" and "r' \<in> set (rows_of c)" for T r r'
  proof (rule ccontr)
    assume "\<not> phase_no T \<le> phase_no (table_of r')"
    then have "k < phase_no T"
      using assms(3) that(2) by auto
    then have "sent_rows T t = []"
      using assms(2) by (simp add: know_def)
    with that(1) show False by simp
  qed
  show ?thesis
    using assms(1) 1 2 3 by (auto simp: good_def referential_snoc in_order_snoc)
qed

lemma good_norows:
  assumes "good n t ls" and "rows_of c = []"
  shows "good n (t @ [(c, rep)]) ls"
  using assms by (simp add: good_def referential_snoc in_order_snoc)

lemma good_print: "\<not> final_line l \<Longrightarrow> good n t (ls @ [l]) = good n t ls"
  by (simp add: good_def)

lemma staged_print: "\<not> final_line l \<Longrightarrow> staged n k ids cnt t (ls @ [l]) = staged n k ids cnt t ls"
  by (simp add: staged_def good_print)

lemma know_advance:
  assumes "know k ids cnt t" and "phase_no X = k"
    and "phase_no X < 5 \<longrightarrow> ids X = inserted_ids X t" and "length (inserted_rows X t) = c"
  shows "know (Suc k) ids (cnt(X := c)) t"
proof -
  have a: "length (inserted_rows T t) = (cnt(X := c)) T \<and>
           (phase_no T < 5 \<longrightarrow> inserted_ids T t = ids T)"
    if lt: "phase_no T < Suc k" for T
  proof -
    have "T = X \<or> phase_no T < k"
      using lt assms(2) phase_no_inj [of T X] by (cases "phase_no T = k") auto
    then consider "T = X" | "phase_no T < k"
      by blast
    then show ?thesis
    proof cases
      case 1
      with assms(3,4) show ?thesis by simp
    next
      case 2
      with assms(1,2) show ?thesis by (auto simp: know_def)
    qed
  qed
  have b: "sent_rows T t = []" if "Suc k < phase_no T" for T
    using assms(1) that by (simp add: know_def)
  show ?thesis
    unfolding know_def using a b by blast
qed

lemma staged_advance:
  assumes "good n t ls" and "know k ids cnt t" and "phase_no X = k"
    and "phase_no X < 5 \<longrightarrow> ids X = inserted_ids X t"
    and "length (inserted_rows X t) = c"
  shows "staged n (Suc k) ids (cnt(X := c)) t ls"
proof -
  have "sent_rows T t = []" if "phase_no T = Suc k" for T
    using assms(2) that by (simp add: know_def)
  then show ?thesis
    using assms(1) know_advance [OF assms(2-5)] by (simp add: staged_def)
qed

lemma know_ids_irrelevant:
  assumes "know k ids cnt t" and "k \<le> phase_no X"
  shows "know k (ids(X := l)) cnt t"
  using assms unfolding know_def by auto

lemma insert_step_master:
  assumes X: "phase_no X = k" and link: "X \<noteq> Clase_has_sede"
    and gen: "rtotal (\<lambda>r. table_of r = X \<and> fk_known n ids r) gen"
  shows "triple
           (\<lambda>s. minv n s \<and> know k ids cnt (trace s) \<and> inserted_ids X (trace s) = acc \<and>
                length (inserted_rows X (trace s)) = length acc \<and> length acc = i)
           (insert_step E gen i acc)
           (\<lambda>acc' s. minv n s \<and> know k ids cnt (trace s) \<and> inserted_ids X (trace s) = acc' \<and>
                length (inserted_rows X (trace s)) = length acc' \<and> length acc' = Suc i)
           (\<lambda>e s. minv n s \<and> origin E e (trace s))"
  unfolding insert_step_def
  apply (rule triple_pre)
   apply (rule triple_bind triple_return triple_if triple_commit triple_db_call triple_lift_rand)+
  subgoal premises pre for s
  proof -
    obtain r p' where r: "gen (rpos s) = (Inr r, p')" "table_of r = X" "fk_known n ids r"
      using rtotalD [OF gen, of "rpos s"] by blast
    have rows: "\<forall>r' \<in> set (rows_of (Execute_insert r)).
                  phase_no (table_of r') = k \<and> fk_known n ids r'"
      using r(2,3) X by simp
    have good: "good n (trace s) (out s)" and know: "know k ids cnt (trace s)"
      using pre by simp_all
    have m1: "good n (trace s @ [(Execute_insert r, rep)]) (out s)" for rep
      by (rule good_send [OF good know rows])
    have m2: "good n (trace s @ [(Execute_insert r, rep), (Commit, rep')]) (out s)" for rep rep'
      using good_norows [OF m1 [of rep], of Commit rep'] by simp
    have k1: "know k ids cnt (trace s @ [(Execute_insert r, rep)])"
      and k2: "know k ids cnt (trace s @ [(Execute_insert r, rep), (Commit, rep')])" for rep rep'
      using know rows by (simp_all add: know_append)
    have un: "unabsorbed (Execute_insert r)"
      using r(2) link by (simp add: unabsorbed_insert)
    show ?thesis
      using pre r(2) by (simp add: r(1) m1 m2 k1 k2 un origin_def butlast_append split: reply.splits)
  qed
  done

lemma insert_phase_master:
  assumes X: "phase_no X = k" and link: "X \<noteq> Clase_has_sede"
    and gen: "rtotal (\<lambda>r. table_of r = X \<and> fk_known n ids r) gen"
  shows "triple (stage n k ids cnt) (insert_phase E gen m)
           (\<lambda>acc s. stage n (Suc k) (ids(X := acc)) (cnt(X := m)) s \<and> length acc = m)
           (\<lambda>e s. minv n s \<and> origin E e (trace s))"
  unfolding insert_phase_def for_range_def
proof (rule triple_bind)
  show "triple (stage n k ids cnt) (for_from 0 m (insert_step E gen) [])
          (\<lambda>acc s. minv n s \<and> know k ids cnt (trace s) \<and> inserted_ids X (trace s) = acc \<and>
                length (inserted_rows X (trace s)) = length acc \<and> length acc = 0 + m)
          (\<lambda>e s. minv n s \<and> origin E e (trace s))"
    by (rule triple_pre, rule triple_for_from
        [where I = "\<lambda>i acc s. minv n s \<and> know k ids cnt (trace s) \<and>
            inserted_ids X (trace s) = acc \<and>
            length (inserted_rows X (trace s)) = length acc \<and> length acc = i"],
        rule insert_step_master [OF X link gen])
      (simp add: staged_def X not_sent_ids not_sent_rows)
next
  fix acc
  show "triple
          (\<lambda>s. minv n s \<and> know k ids cnt (trace s) \<and> inserted_ids X (trace s) = acc \<and>
                length (inserted_rows X (trace s)) = length acc \<and> length acc = 0 + m)
          (bind (commit E) (\<lambda>_. return acc))
          (\<lambda>acc s. stage n (Suc k) (ids(X := acc)) (cnt(X := m)) s \<and> length acc = m)
          (\<lambda>e s. minv n s \<and> origin E e (trace s))"
    apply (rule triple_pre)
     apply (rule triple_bind triple_return triple_commit)+
    apply (clarsimp simp: good_norows origin_snoc split: reply.splits)
    apply (rule staged_advance [OF _ _ X])
       apply (simp_all add: good_norows know_append know_ids_irrelevant X)
    done
qed

lemma rtotalI:
  assumes "\<And>p. \<exists>x p'. m p = (Inr x, p') \<and> P x"
  shows "rtotal P m"
  unfolding rtotal_def
proof
  fix p
  obtain x p' where "m p = (Inr x, p')" "P x"
    using assms [of p] by blast
  then show "case m p of (Inr x, p') \<Rightarrow> P x | (Inl e, p') \<Rightarrow> False"
    by simp
qed

lemma rtotal_return: "P x \<Longrightarrow> rtotal P (rreturn x)"
  by (rule rtotalI) (simp add: rreturn_def)

lemma rtotal_bind:
  assumes "rtotal P m" and "\<And>x. P x \<Longrightarrow> rtotal Q (f x)"
  shows "rtotal Q (rbind m f)"
proof (rule rtotalI)
  fix p
  obtain x p1 where 1: "m p = (Inr x, p1)" "P x"
    using rtotalD [OF assms(1), of p] by blast
  obtain y p2 where "f x p1 = (Inr y, p2)" "Q y"
    using rtotalD [OF assms(2) [OF 1(2)], of p1] by blast
  with 1 show "\<exists>x p'. rbind m f p = (Inr x, p') \<and> Q x"
    by (simp add: rbind_def)
qed

lemma rtotal_weaken:
  assumes "rtotal P m" and "\<And>x. P x \<Longrightarrow> Q x"
  shows "rtotal Q m"
proof (rule rtotalI)
  fix p
  show "\<exists>x p'. m p = (Inr x, p') \<and> Q x"
    using rtotalD [OF assms(1), of p] assms(2) by blast
qed

lemma rtotal_if:
  assumes "c \<Longrightarrow> rtotal P a" and "\<not> c \<Longrightarrow> rtotal P b"
  shows "rtotal P (if c then a else b)"
  using assms by simp

lemma rtotal_draw: "rtotal (\<lambda>r. True) (draw R)"
  by (rule rtotalI) (simp add: draw_def)

lemma rtotal_random_random: "rtotal (\<lambda>u. True) (random_random R)"
  unfolding random_random_def
  by (rule rtotal_bind [OF rtotal_draw]) (rule rtotal_return, simp)

lemma rtotal_low_variance: "rtotal (\<lambda>b. True) (low_variance R)"
  unfolding low_variance_def
  by (rule rtotal_bind [OF rtotal_random_random]) (rule rtotal_return, simp)

lemma rtotal_maybe_null: "rtotal (\<lambda>v. True) (maybe_null R x)"
  unfolding maybe_null_def
  by (rule rtotal_bind [OF rtotal_random_random]) (rule rtotal_return, simp)

lemma rtotal_random_choice:
  assumes "seq \<noteq> []"
  shows "rtotal (\<lambda>x. x \<in> set seq) (random_choice R seq)"
proof (rule rtotalI)
  fix p
  have "R p mod length seq < length seq"
    using assms by simp
  then show "\<exists>x p'. random_choice R seq p = (Inr x, p') \<and> x \<in> set seq"
    using assms by (simp add: random_choice_def rbind_def randbelow_def draw_def rreturn_def)
qed

lemma rtotal_rand_text:
  assumes "a \<le> b"
  shows "rtotal (\<lambda>t. True) (rand_text R a b)"
proof (rule rtotalI)
  fix p
  obtain l where l: "random_randint R a b p = (Inr l, Suc p)"
    using random_randint_range [OF assms] by blast
  obtain cs p' where "random_choices R (ascii_letters @ '' '') (nat l) (Suc p) = (Inr cs, p')"
    using random_choices_length by blast
  with l show "\<exists>x p'. rand_text R a b p = (Inr x, p') \<and> True"
    by (simp add: rand_text_def rbind_def rreturn_def)
qed

lemma rtotal_decimal_uniform: "rtotal (\<lambda>d. True) (decimal_uniform R a b)"
  unfolding decimal_uniform_def
  by (rule rtotal_bind [OF rtotal_draw]) (rule rtotal_return, simp)

lemma rtotal_random_date_str: "rtotal (\<lambda>d. True) (random_date_str R a b)"
  unfolding random_date_str_def
  by (rule rtotal_bind [OF rtotal_draw]) (rule rtotal_return, simp)

lemma sede_row_total: "rtotal (\<lambda>r. table_of r = Sede \<and> fk_known n ids r) (sede_row R)"
  unfolding sede_row_def
  apply (rule rtotal_bind [OF rtotal_low_variance])
  apply (rule rtotal_bind [where P = "\<lambda>x. True"])
   apply (rule rtotal_if)
    apply (rule rtotal_return, simp)
   apply (rule rtotal_bind [OF rtotal_rand_text], simp)
   apply (rule rtotal_return, simp)
  apply (rule rtotal_bind [OF rtotal_random_choice], simp)
  apply (rule rtotal_bind [OF rtotal_maybe_null])
  apply (rule rtotal_return)
  apply (simp add: fk_known_def)
  done

lemma docente_row_total: "rtotal (\<lambda>r. table_of r = Docente \<and> fk_known n ids r) (docente_row R)"
  unfolding docente_row_def
  apply (rule rtotal_bind [OF rtotal_low_variance])
  apply (rule rtotal_bind [where P = "\<lambda>x. True"])
   apply (rule rtotal_if)
    apply (rule rtotal_return, simp)
   apply (rule rtotal_bind [OF rtotal_random_choice], simp add: nombres_base_def)
   apply (rule rtotal_bind [OF rtotal_random_choice], simp)
   apply (rule rtotal_return, simp)
  apply (rule rtotal_bind [OF rtotal_maybe_null])
  apply (rule rtotal_return)
  apply (simp add: fk_known_def)
  done

lemma clase_row_total:
  assumes "docente_ids \<noteq> []" and "ids Docente = docente_ids" and "length docente_ids = n"
  shows "rtotal (\<lambda>r. table_of r = Clase \<and> fk_known n ids r) (clase_row R docente_ids)"
  unfolding clase_row_def
  apply (rule rtotal_bind [OF rtotal_low_variance])
  apply (rule rtotal_bind [where P = "\<lambda>x. True"])
   apply (rule rtotal_if)
    apply (rule rtotal_weaken [OF rtotal_random_choice], simp add: deportes_def, simp)
   apply (rule rtotal_rand_text, simp)
  apply (rule rtotal_bind [OF rtotal_maybe_null])
  apply (rule rtotal_bind [OF rtotal_random_choice [OF assms(1)]])
  apply (rule rtotal_return)
  apply (simp add: fk_known_def assms)
  done

lemma matricula_row_total:
  "rtotal (\<lambda>r. table_of r = Matricula \<and> fk_known n ids r) (matricula_row R)"
  unfolding matricula_row_def
  apply (rule rtotal_bind [OF rtotal_low_variance])
  apply (rule rtotal_bind [where P = "\<lambda>x. True"])
   apply (rule rtotal_if)
    apply (rule rtotal_return, simp)
   apply (rule rtotal_decimal_uniform)
  apply (rule rtotal_bind [OF rtotal_maybe_null])
  apply (rule rtotal_bind [OF rtotal_random_date_str])
  apply (rule rtotal_return)
  apply (simp add: fk_known_def)
  done

lemma alumno_row_total:
  assumes "matricula_ids \<noteq> []" and "ids Matricula = matricula_ids" and "length matricula_ids = n"
    and "sede_ids \<noteq> []" and "ids Sede = sede_ids" and "length sede_ids = n"
  shows "rtotal (\<lambda>r. table_of r = Alumno \<and> fk_known n ids r)
           (alumno_row R matricula_ids sede_ids)"
  unfolding alumno_row_def
  apply (rule rtotal_bind [OF rtotal_low_variance])
  apply (rule rtotal_bind [where P = "\<lambda>x. True"])
   apply (rule rtotal_if)
    apply (rule rtotal_return, simp)
   apply (rule rtotal_bind [OF rtotal_random_choice], simp)
   apply (rule rtotal_bind [OF rtotal_random_choice], simp)
   apply (rule rtotal_return, simp)
  apply (rule rtotal_bind [OF rtotal_maybe_null])
  apply (rule rtotal_bind [OF rtotal_random_choice [OF assms(1)]])
  apply (rule rtotal_bind [OF rtotal_random_choice [OF assms(4)]])
  apply (rule rtotal_return)
  apply (simp add: fk_known_def assms)
  done

lemma clase_has_sede_row_total:
  assumes "clase_ids \<noteq> []" and "ids Clase = clase_ids" and "length clase_ids = n"
    and "sede_ids \<noteq> []" and "ids Sede = sede_ids" and "length sede_ids = n"
  shows "rtotal (\<lambda>r. table_of r = Clase_has_sede \<and> fk_known n ids r)
           (clase_has_sede_row R clase_ids sede_ids)"
  unfolding clase_has_sede_row_def
  apply (rule rtotal_bind [OF rtotal_random_choice [OF assms(1)]])
  apply (rule rtotal_bind [OF rtotal_random_choice [OF assms(4)]])
  apply (rule rtotal_return)
  apply (simp add: fk_known_def assms)
  done

lemma pago_row_total:
  assumes "alumno_ids \<noteq> []" and "ids Alumno = alumno_ids" and "length alumno_ids = n"
  shows "rtotal (\<lambda>r. table_of r = Pago \<and> fk_known n ids r) (pago_row R alumno_ids)"
  unfolding pago_row_def
  apply (rule rtotal_bind [OF rtotal_random_date_str])
  apply (rule rtotal_bind [OF rtotal_low_variance])
  apply (rule rtotal_bind [where P = "\<lambda>x. True"])
   apply (rule rtotal_if)
    apply (rule rtotal_return, simp)
   apply (rule rtotal_decimal_uniform)
  apply (rule rtotal_bind [OF rtotal_random_random])
  apply (rule rtotal_bind [where P = "\<lambda>x. True"])
   apply (rule rtotal_if)
    apply (rule rtotal_weaken [OF rtotal_random_choice], simp add: periods_def, simp)
   apply (rule rtotal_rand_text, simp)
  apply (rule rtotal_bind [OF rtotal_maybe_null])
  apply (rule rtotal_bind [OF rtotal_maybe_null])
  apply (rule rtotal_bind [OF rtotal_random_choice [OF assms(1)]])
  apply (rule rtotal_return)
  apply (simp add: fk_known_def assms)
  done

lemma asistencia_row_total:
  assumes "alumno_ids \<noteq> []" and "ids Alumno = alumno_ids" and "length alumno_ids = n"
    and "clase_ids \<noteq> []" and "ids Clase = clase_ids" and "length clase_ids = n"
    and "sede_ids \<noteq> []" and "ids Sede = sede_ids" and "length sede_ids = n"
  shows "rtotal (\<lambda>r. table_of r = Asistencia \<and> fk_known n ids r)
           (asistencia_row R alumno_ids clase_ids sede_ids)"
  unfolding asistencia_row_def
  apply (rule rtotal_bind [OF rtotal_random_date_str])
  apply (rule rtotal_bind [OF rtotal_random_choice [OF assms(1)]])
  apply (rule rtotal_bind [OF rtotal_random_choice [OF assms(4)]])
  apply (rule rtotal_bind [OF rtotal_random_choice [OF assms(7)]])
  apply (rule rtotal_return)
  apply (simp add: fk_known_def assms)
  done

lemma link_attempt_master:
  assumes r: "table_of r = Clase_has_sede" "fk_known n ids r"
    and pre: "minv n s" "know 5 ids cnt (trace s)"
      "length (inserted_rows Clase_has_sede (trace s)) = rel"
  shows "\<exists>rel' s'. link_attempt E r rel s = (Inr rel', s') \<and> minv n s' \<and>
           know 5 ids cnt (trace s') \<and>
           length (inserted_rows Clase_has_sede (trace s')) = rel' \<and>
           rel' \<le> Suc rel"
proof -
  have rows: "\<forall>r' \<in> set (rows_of (Execute_insert r)). phase_no (table_of r') = 5 \<and> fk_known n ids r'"
    using r by simp
  have m1: "good n (trace s @ [(Execute_insert r, rep)]) (out s)" for rep
    by (rule good_send [OF pre(1,2) rows])
  have m2: "good n (trace s @ [(Execute_insert r, rep), (Commit, rep')]) (out s)" for rep rep'
    using good_norows [OF m1 [of rep], of Commit rep'] by simp
  have k1: "know 5 ids cnt (trace s @ [(Execute_insert r, rep)])"
    and k2: "know 5 ids cnt (trace s @ [(Execute_insert r, rep), (Commit, rep')])" for rep rep'
    using pre(2) r(1) by (simp_all add: know_append)
  show ?thesis
    using pre(3) r(1)
    by (simp add: link_attempt_def db_call_def Let_def m1 m2 k1 k2 split: reply.splits)
qed

lemma link_loop_master:
  assumes "rtotal (\<lambda>r. table_of r = Clase_has_sede \<and> fk_known n ids r)
             (clase_has_sede_row (rnd E) clase_ids sede_ids)"
    and "minv n s" and "know 5 ids cnt (trace s)"
    and "length (inserted_rows Clase_has_sede (trace s)) = rel" and "rel \<le> m"
  shows "\<exists>rel' intentos' s'. link_loop E m clase_ids sede_ids rel intentos s = (Inr (rel', intentos'), s') \<and>
           minv n s' \<and> know 5 ids cnt (trace s') \<and>
           length (inserted_rows Clase_has_sede (trace s')) = rel' \<and> rel' \<le> m"
  using assms
proof (induction E m clase_ids sede_ids rel intentos s rule: link_loop.induct)
  case (1 E m clase_ids sede_ids rel intentos s)
  show ?case
  proof (cases "rel < m \<and> intentos < m * 4")
    case True
    obtain r p' where r: "clase_has_sede_row (rnd E) clase_ids sede_ids (rpos s) = (Inr r, p')"
      "table_of r = Clase_has_sede" "fk_known n ids r"
      using rtotalD [OF "1.prems"(1), of "rpos s"] by blast
    have lift: "lift_rand (clase_has_sede_row (rnd E) clase_ids sede_ids) s = (Inr r, s\<lparr>rpos := p'\<rparr>)"
      using r(1) by (simp add: lift_rand_def)
    obtain rel' s2 where att: "link_attempt E r rel (s\<lparr>rpos := p'\<rparr>) = (Inr rel', s2)"
      and s2: "minv n s2" "know 5 ids cnt (trace s2)"
        "length (inserted_rows Clase_has_sede (trace s2)) = rel'" "rel' \<le> Suc rel"
      using link_attempt_master [OF r(2,3), of "s\<lparr>rpos := p'\<rparr>" cnt rel E] "1.prems"(2-4)
      by auto
    have "rel' \<le> m"
      using s2(4) True by simp
    from "1.IH" [OF True refl lift [symmetric] refl att [symmetric] refl "1.prems"(1) s2(1-3) this]
    show ?thesis
      by (subst link_loop.simps) (simp add: True lift att)
  next
    case False
    then show ?thesis
      using "1.prems" by (subst link_loop.simps) auto
  qed
qed

lemma triple_case_prod:
  assumes "\<And>a b. triple (R (a, b)) (f a b) Q X"
  shows "triple (R x) (case x of (a, b) \<Rightarrow> f a b) Q X"
  using assms [of "fst x" "snd x"] by (simp add: case_prod_beta)

lemma link_loop_triple:
  assumes "rtotal (\<lambda>r. table_of r = Clase_has_sede \<and> fk_known n ids r)
             (clase_has_sede_row (rnd E) clase_ids sede_ids)"
  shows "triple
           (\<lambda>s. minv n s \<and> know 5 ids cnt (trace s) \<and>
                length (inserted_rows Clase_has_sede (trace s)) = rel \<and> rel \<le> m)
           (link_loop E m clase_ids sede_ids rel intentos)
           (\<lambda>x s. minv n s \<and> know 5 ids cnt (trace s) \<and>
                length (inserted_rows Clase_has_sede (trace s)) = fst x \<and> fst x \<le> m)
           X"
proof (rule tripleI)
  fix s x s'
  assume "minv n s \<and> know 5 ids cnt (trace s) \<and>
          length (inserted_rows Clase_has_sede (trace s)) = rel \<and> rel \<le> m"
    and "link_loop E m clase_ids sede_ids rel intentos s = (Inr x, s')"
  then show "minv n s' \<and> know 5 ids cnt (trace s') \<and>
          length (inserted_rows Clase_has_sede (trace s')) = fst x \<and> fst x \<le> m"
    using link_loop_master [OF assms, of s cnt rel m intentos] by auto
next
  fix s e s'
  assume "minv n s \<and> know 5 ids cnt (trace s) \<and>
          length (inserted_rows Clase_has_sede (trace s)) = rel \<and> rel \<le> m"
    and "link_loop E m clase_ids sede_ids rel intentos s = (Inl e, s')"
  then show "X e s'"
    using link_loop_master [OF assms, of s cnt rel m intentos] by auto
qed

lemma link_phase_master:
  assumes "rtotal (\<lambda>r. table_of r = Clase_has_sede \<and> fk_known n ids r)
             (clase_has_sede_row (rnd E) clase_ids sede_ids)"
  shows "triple (stage n 5 ids cnt) (link_phase E m clase_ids sede_ids)
           (\<lambda>x s. stage n 6 ids (cnt(Clase_has_sede := fst x)) s \<and> fst x \<le> m)
           (\<lambda>e s. minv n s \<and> origin E e (trace s))"
  unfolding link_phase_def
proof (rule triple_bind)
  show "triple (stage n 5 ids cnt) (link_loop E m clase_ids sede_ids 0 0)
          (\<lambda>x s. minv n s \<and> know 5 ids cnt (trace s) \<and>
                length (inserted_rows Clase_has_sede (trace s)) = fst x \<and> fst x \<le> m)
          (\<lambda>e s. minv n s \<and> origin E e (trace s))"
    by (rule triple_pre, rule link_loop_triple [OF assms, where rel = 0])
      (simp add: staged_def not_sent_rows)
next
  fix x :: "nat \<times> nat"
  show "triple
          (\<lambda>s. minv n s \<and> know 5 ids cnt (trace s) \<and>
                length (inserted_rows Clase_has_sede (trace s)) = fst x \<and> fst x \<le> m)
          (case x of (relaciones_insertadas, intentos) \<Rightarrow>
             bind (commit E) (\<lambda>_.
             bind (print_line (Relaciones_insertadas relaciones_insertadas intentos)) (\<lambda>_.
             return (relaciones_insertadas, intentos))))
          (\<lambda>x s. stage n 6 ids (cnt(Clase_has_sede := fst x)) s \<and> fst x \<le> m)
          (\<lambda>e s. minv n s \<and> origin E e (trace s))"
    apply (rule triple_case_prod)
    apply (rule triple_pre)
     apply (rule triple_bind triple_return triple_commit triple_print)+
    apply (clarsimp simp: good_norows origin_snoc staged_print split: reply.splits)
    apply (rule staged_advance [where k = 5, simplified])
        apply (simp_all add: good_norows know_append)
    done
qed

lemma batch_step_master:
  assumes X: "phase_no X = k"
    and gen: "rtotal (\<lambda>r. table_of r = X \<and> fk_known n ids r) gen"
  shows "triple
           (\<lambda>s. minv n s \<and> know k ids cnt (trace s) \<and>
                length (inserted_rows X (trace s)) = fst acc \<and>
                fst acc + length (snd acc) = i \<and>
                (\<forall>r \<in> set (snd acc). table_of r = X \<and> fk_known n ids r))
           (batch_step E gen i acc)
           (\<lambda>acc' s. minv n s \<and> know k ids cnt (trace s) \<and>
                length (inserted_rows X (trace s)) = fst acc' \<and>
                fst acc' + length (snd acc') = Suc i \<and>
                (\<forall>r \<in> set (snd acc'). table_of r = X \<and> fk_known n ids r))
           (\<lambda>e s. minv n s \<and> origin E e (trace s))"
proof (cases acc)
  case (Pair count batch)
  show ?thesis
    unfolding batch_step_def Pair prod.case Let_def
    apply (rule triple_pre)
     apply (rule triple_bind triple_return triple_if triple_commit triple_db_call triple_lift_rand)+
    subgoal premises pre for s
    proof -
      obtain r p' where r: "gen (rpos s) = (Inr r, p')" "table_of r = X" "fk_known n ids r"
        using rtotalD [OF gen, of "rpos s"] by blast
      have good: "good n (trace s) (out s)" and know: "know k ids cnt (trace s)"
        and batch: "\<forall>r \<in> set batch. table_of r = X \<and> fk_known n ids r"
        using pre by simp_all
      have rows: "\<forall>r' \<in> set (rows_of (Executemany (batch @ [r]))).
                    phase_no (table_of r') = k \<and> fk_known n ids r'"
        using batch r(2,3) X by auto
      have m1: "good n (trace s @ [(Executemany (batch @ [r]), rep)]) (out s)" for rep
        by (rule good_send [OF good know rows])
      have m2: "good n (trace s @ [(Executemany (batch @ [r]), rep), (Commit, rep')]) (out s)"
        for rep rep'
        using good_norows [OF m1 [of rep], of Commit rep'] by simp
      have k1: "know k ids cnt (trace s @ [(Executemany (batch @ [r]), rep)])"
        and k2: "know k ids cnt (trace s @ [(Executemany (batch @ [r]), rep), (Commit, rep')])"
        for rep rep'
        using know rows by (simp_all add: know_append)
      have f: "filter (\<lambda>r. table_of r = X) batch = batch"
        using batch by (simp add: filter_id_conv)
      show ?thesis
        using pre r(2,3)
        by (simp add: r(1) m1 m2 k1 k2 f origin_def butlast_append split: reply.splits)
    qed
    done
qed

lemma batch_phase_master:
  assumes X: "phase_no X = k" and parent: "5 \<le> k"
    and gen: "rtotal (\<lambda>r. table_of r = X \<and> fk_known n ids r) gen"
  shows "triple (stage n k ids cnt) (batch_phase E gen m)
           (\<lambda>count s. stage n (Suc k) ids (cnt(X := m)) s \<and> count = m)
           (\<lambda>e s. minv n s \<and> origin E e (trace s))"
  unfolding batch_phase_def for_range_def
proof (rule triple_bind)
  show "triple (stage n k ids cnt) (for_from 0 m (batch_step E gen) (0, []))
          (\<lambda>acc s. minv n s \<and> know k ids cnt (trace s) \<and>
                length (inserted_rows X (trace s)) = fst acc \<and>
                fst acc + length (snd acc) = 0 + m \<and>
                (\<forall>r \<in> set (snd acc). table_of r = X \<and> fk_known n ids r))
          (\<lambda>e s. minv n s \<and> origin E e (trace s))"
    by (rule triple_pre, rule triple_for_from
        [where I = "\<lambda>i acc s. minv n s \<and> know k ids cnt (trace s) \<and>
            length (inserted_rows X (trace s)) = fst acc \<and>
            fst acc + length (snd acc) = i \<and>
            (\<forall>r \<in> set (snd acc). table_of r = X \<and> fk_known n ids r)"],
        rule batch_step_master [OF X gen])
      (simp add: staged_def X not_sent_rows)
next
  fix acc :: "nat \<times> row list"
  show "triple
          (\<lambda>s. minv n s \<and> know k ids cnt (trace s) \<and>
                length (inserted_rows X (trace s)) = fst acc \<and>
                fst acc + length (snd acc) = 0 + m \<and>
                (\<forall>r \<in> set (snd acc). table_of r = X \<and> fk_known n ids r))
          (case acc of (count, batch) \<Rightarrow>
             if batch \<noteq> [] then
               bind (db_call E (Executemany batch)) (\<lambda>_.
               bind (commit E) (\<lambda>_.
               return (count + length batch)))
             else return count)
          (\<lambda>count s. stage n (Suc k) ids (cnt(X := m)) s \<and> count = m)
          (\<lambda>e s. minv n s \<and> origin E e (trace s))"
    apply (rule triple_case_prod)
    apply (rule triple_pre)
     apply (rule triple_bind triple_return triple_if triple_commit triple_db_call)+
    subgoal premises pre for count batch s
    proof -
      have good: "good n (trace s) (out s)" and know: "know k ids cnt (trace s)"
        and batch: "\<forall>r \<in> set batch. table_of r = X \<and> fk_known n ids r"
        and len: "length (inserted_rows X (trace s)) = count" "count + length batch = m"
        using pre by simp_all
      have rows: "\<forall>r' \<in> set (rows_of (Executemany batch)).
                    phase_no (table_of r') = k \<and> fk_known n ids r'"
        using batch X by auto
      have m1: "good n (trace s @ [(Executemany batch, rep)]) (out s)" for rep
        by (rule good_send [OF good know rows])
      have m2: "good n (trace s @ [(Executemany batch, rep), (Commit, rep')]) (out s)"
        for rep rep'
        using good_norows [OF m1 [of rep], of Commit rep'] by simp
      have k2: "know k ids cnt (trace s @ [(Executemany batch, rep), (Commit, rep')])"
        for rep rep'
        using know rows by (simp add: know_append)
      have f: "filter (\<lambda>r. table_of r = X) batch = batch"
        using batch by (simp add: filter_id_conv)
      have no5: "\<not> phase_no X < 5"
        using X parent by simp
      have adv: "staged n (Suc k) ids (cnt(X := m))
                   (trace s @ [(Executemany batch, Returns v), (Commit, Returns w)]) (out s)"
        for v w
        by (rule staged_advance [OF m2 k2 X]) (use no5 len in \<open>simp_all add: f\<close>)
      have adv0: "batch = [] \<Longrightarrow> staged n (Suc k) ids (cnt(X := m)) (trace s) (out s)"
        by (rule staged_advance [OF good know X]) (use no5 len in simp_all)
      show ?thesis
      proof (cases "batch = []")
        case True
        with len adv0 show ?thesis by simp
      next
        case False
        with len show ?thesis
          by (simp add: m1 m2 adv origin_def butlast_append split: reply.splits)
      qed
    qed
    done
qed

lemma triple_seq:
  assumes "triple P m R X" and "\<And>x. triple (R x) (f x) Q X"
  shows "triple P (bind m f) Q X"
  using assms(2) assms(1) by (rule triple_bind)

lemma triple_assume:
  assumes "A \<Longrightarrow> triple P m Q X"
  shows "triple (\<lambda>s. P s \<and> A) m Q X"
proof (rule tripleI)
  fix s x s' assume "P s \<and> A" and "m s = (Inr x, s')"
  then show "Q x s'" using triple_Inr [OF assms] by blast
next
  fix s e s' assume "P s \<and> A" and "m s = (Inl e, s')"
  then show "X e s'" using triple_Inl [OF assms] by blast
qed

lemma triple_print_keep:
  assumes "\<And>s. P s \<Longrightarrow> P (s\<lparr>out := out s @ [l]\<rparr>)"
  shows "triple P (print_line l) (\<lambda>_. P) X"
  by (rule triple_pre [OF triple_print]) (rule assms)

lemma resumen_eq:
  "resumen a b c d e f g h s =
     (Inr (), s\<lparr>out := out s @
        [Carga_masiva_finalizada, Resumen_sedes a, Resumen_docentes b, Resumen_clases c,
         Resumen_matriculas d, Resumen_alumnos e, Resumen_clase_has_sede f,
         Resumen_pagos g, Resumen_asistencias h]\<rparr>)"
  by (simp add: resumen_def bind_def print_line_def)

lemma triple_resumen:
  "triple (\<lambda>s. Q () (s\<lparr>out := out s @
        [Carga_masiva_finalizada, Resumen_sedes a, Resumen_docentes b, Resumen_clases c,
         Resumen_matriculas d, Resumen_alumnos e, Resumen_clase_has_sede f,
         Resumen_pagos g, Resumen_asistencias h]\<rparr>))
     (resumen a b c d e f g h) Q X"
  by (rule tripleI) (simp_all add: resumen_eq)

lemma link_phase_master':
  assumes "k = 5"
    and "rtotal (\<lambda>r. table_of r = Clase_has_sede \<and> fk_known n ids r)
             (clase_has_sede_row (rnd E) clase_ids sede_ids)"
  shows "triple (stage n k ids cnt) (link_phase E m clase_ids sede_ids)
           (\<lambda>x s. stage n (Suc k) ids (cnt(Clase_has_sede := fst x)) s \<and> fst x \<le> m)
           (\<lambda>e s. minv n s \<and> origin E e (trace s))"
  using link_phase_master [OF assms(2)] assms(1) by simp

lemma completedI:
  assumes "staged n k ids cnt t ls" and "k = 8"
    and "cnt Sede = n" "cnt Docente = n" "cnt Clase = n" "cnt Matricula = n" "cnt Alumno = n"
      "cnt Clase_has_sede = rel" "cnt Pago = n" "cnt Asistencia = n" "rel \<le> n"
  shows "completed n t
           (ls @ [Carga_masiva_finalizada, Resumen_sedes n, Resumen_docentes n, Resumen_clases n,
                  Resumen_matriculas n, Resumen_alumnos n, Resumen_clase_has_sede rel,
                  Resumen_pagos n, Resumen_asistencias n])"
proof -
  have "length (inserted_rows T t) = cnt T" for T
    using assms(1,2) by (cases T) (simp_all add: staged_def know_def)
  then have "length (inserted_rows T t) = (if T = Clase_has_sede then rel else n)" for T
    using assms(3-10) by (cases T) simp_all
  then show ?thesis
    using assms(1,11) unfolding completed_def staged_def good_def by blast
qed

lemma generation_master:
  assumes n: "0 < n"
  shows "triple (stage n 0 ids cnt) (generation E n) (\<lambda>_ s. completed n (trace s) (out s))
           (\<lambda>e s. minv n s \<and> origin E e (trace s))"
  unfolding generation_def
  apply (rule triple_seq)
   apply (rule insert_phase_master [where X = Sede])
     apply simp
    apply simp
   apply (rule sede_row_total)
  apply (rule triple_assume)
  apply (rule triple_seq)
   apply (rule triple_print_keep)
   apply (simp add: staged_print)
  apply (rule triple_seq)
   apply (rule insert_phase_master [where X = Docente])
     apply simp
    apply simp
   apply (rule docente_row_total)
  apply (rule triple_assume)
  apply (rule triple_seq)
   apply (rule triple_print_keep)
   apply (simp add: staged_print)
  apply (rule triple_seq)
   apply (rule insert_phase_master [where X = Clase])
     apply simp
    apply simp
   apply (rule clase_row_total)
  using n apply auto[3]
  apply (rule triple_assume)
  apply (rule triple_seq)
   apply (rule triple_print_keep)
   apply (simp add: staged_print)
  apply (rule triple_seq)
   apply (rule insert_phase_master [where X = Matricula])
     apply simp
    apply simp
   apply (rule matricula_row_total)
  apply (rule triple_assume)
  apply (rule triple_seq)
   apply (rule triple_print_keep)
   apply (simp add: staged_print)
  apply (rule triple_seq)
   apply (rule insert_phase_master [where X = Alumno])
     apply simp
    apply simp
   apply (rule alumno_row_total)
  using n apply auto[6]
  apply (rule triple_assume)
  apply (rule triple_seq)
   apply (rule triple_print_keep)
   apply (simp add: staged_print)
  apply (rule triple_seq)
   apply (rule link_phase_master')
    apply simp
   apply (rule clase_has_sede_row_total)
  using n apply auto[6]
  apply (rule triple_case_prod)
  apply (rule triple_assume)
  apply (rule triple_seq)
   apply (rule batch_phase_master [where X = Pago])
     apply simp
    apply simp
   apply (rule pago_row_total)
  using n apply auto[3]
  apply (rule triple_assume)
  apply (rule triple_seq)
   apply (rule triple_print_keep)
   apply (simp add: staged_print)
  apply (rule triple_seq)
   apply (rule batch_phase_master [where X = Asistencia])
     apply simp
    apply simp
   apply (rule asistencia_row_total)
  using n apply auto[9]
  apply (rule triple_assume)
  apply (rule triple_seq)
   apply (rule triple_print_keep)
   apply (simp add: staged_print)
  apply (rule triple_pre)
   apply (rule triple_resumen)
  apply clarsimp
  apply (rule completedI, assumption)
           apply (simp_all add: eval_nat_numeral)
  done

lemma unsent_stage: "unsent_log n t ls \<Longrightarrow> staged n 0 ids cnt t ls"
  by (simp add: unsent_log_def staged_def know_def)

lemma unsent_norows:
  assumes "unsent_log n t ls" and "rows_of c = []"
  shows "unsent_log n (t @ [(c, rep)]) ls"
  using assms by (simp add: unsent_log_def good_norows event_sent_def)

lemma unsent_print:
  assumes "unsent_log n t ls" and "\<not> final_line l"
  shows "unsent_log n t (ls @ [l])"
  using assms by (simp add: unsent_log_def good_print)

lemma unsent_minv: "unsent_log n t ls \<Longrightarrow> good n t ls"
  by (simp add: unsent_log_def)

lemma unsent_good_norows:
  assumes "unsent_log n t ls" and "rows_of c = []"
  shows "good n (t @ [(c, rep)]) ls"
  using assms by (simp add: unsent_log_def good_norows)

lemma connect_master:
  "triple (unsent n) (connect E cfg) (\<lambda>_. unsent n) (\<lambda>e s. minv n s \<and> origin E e (trace s))"
proof (rule tripleI)
  fix s x s'
  assume "unsent n s" and "connect E cfg s = (Inr x, s')"
  then show "unsent n s'"
    using unsent_norows [of n "trace s" "out s" "Connect cfg"]
    by (auto simp: connect_def bind_def db_call_def Let_def split: reply.splits)
next
  fix s e s'
  assume "unsent n s" and "connect E cfg s = (Inl e, s')"
  then show "minv n s' \<and> origin E e (trace s')"
    using unsent_norows [of n "trace s" "out s" "Connect cfg"]
    by (auto simp: connect_def bind_def db_call_def Let_def origin_snoc unsent_good_norows
        split: reply.splits)
qed

lemma get_cursor_master:
  "triple (unsent n) (get_cursor E) (\<lambda>_. unsent n) (\<lambda>e s. minv n s \<and> origin E e (trace s))"
proof (rule tripleI)
  fix s x s'
  assume "unsent n s" and "get_cursor E s = (Inr x, s')"
  then show "unsent n s'"
    using unsent_norows [of n "trace s" "out s" Cursor]
    by (auto simp: get_cursor_def bind_def db_call_def Let_def split: reply.splits)
next
  fix s e s'
  assume "unsent n s" and "get_cursor E s = (Inl e, s')"
  then show "minv n s' \<and> origin E e (trace s')"
    using unsent_norows [of n "trace s" "out s" Cursor]
    by (auto simp: get_cursor_def bind_def db_call_def Let_def origin_snoc unsent_good_norows
        split: reply.splits)
qed

lemma alter_step_master: "triple (unsent n) (alter_step E stmt a) (\<lambda>_. unsent n) X"
proof (rule tripleI)
  fix s x s'
  assume "unsent n s" and "alter_step E stmt a s = (Inr x, s')"
  then show "unsent n s'"
    using unsent_norows [of n "trace s" "out s" "Execute stmt"]
    by (auto simp: alter_step_def db_call_def Let_def split: reply.splits)
next
  fix s e s'
  assume "unsent n s" and "alter_step E stmt a s = (Inl e, s')"
  then show "X e s'"
    by (auto simp: alter_step_def db_call_def Let_def split: reply.splits)
qed

lemma alters_loop_master: "triple (unsent n) (alters_loop E stmts a) (\<lambda>_. unsent n) X"
proof (induction stmts arbitrary: a)
  case Nil
  show ?case using triple_return [of "\<lambda>_. unsent n" a X] by simp
next
  case (Cons stmt stmts)
  show ?case
    by (simp, rule triple_seq [OF alter_step_master Cons])
qed

lemma schema_relaxation_master:
  "triple (unsent n) (schema_relaxation E) (\<lambda>_. unsent n)
     (\<lambda>e s. minv n s \<and> origin E e (trace s))"
  unfolding schema_relaxation_def
  apply (rule triple_seq [OF alters_loop_master])
  apply (rule triple_pre)
   apply (rule triple_bind triple_if triple_commit triple_print)+
  apply (auto simp: unsent_norows unsent_print origin_snoc unsent_good_norows split: reply.splits)
  done

lemma unsent_init: "unsent n init_state"
  by (simp add: unsent_log_def init_state_def good_def)

lemma try_body_master:
  "triple (unsent N) (try_body E cfg) (\<lambda>_ s. completed N (trace s) (out s))
     (\<lambda>e s. minv N s \<and> origin E e (trace s))"
  unfolding try_body_def
  apply (rule triple_seq [OF connect_master])
  apply (rule triple_seq [OF get_cursor_master])
  apply (rule triple_seq)
   apply (rule triple_print_keep)
   apply (simp add: unsent_print)
  apply (rule triple_seq [OF schema_relaxation_master])
  apply (rule triple_pre)
   apply (rule generation_master)
   apply (simp add: N_def)
  apply (erule unsent_stage)
  done

lemma extends_refl [simp]: "extends s s"
  by (simp add: extends_def)

lemma extends_trans: "extends s s' \<Longrightarrow> extends s' s'' \<Longrightarrow> extends s s''"
  by (auto simp: extends_def)

lemma growsI: "(\<And>s. extends s (snd (m s))) \<Longrightarrow> grows m"
  by (simp add: grows_def)

lemma growsD: "grows m \<Longrightarrow> m s = (r, s') \<Longrightarrow> extends s s'"
  by (auto simp: grows_def dest: spec [of _ s])

lemma grows_return: "grows (return x)"
  by (rule growsI) (simp add: return_def)

lemma grows_bind:
  assumes "grows m" and "\<And>x. grows (f x)"
  shows "grows (bind m f)"
proof (rule growsI)
  fix s
  obtain r s1 where ms: "m s = (r, s1)"
    by (cases "m s")
  have 1: "extends s s1"
    by (rule growsD [OF assms(1) ms])
  show "extends s (snd (bind m f s))"
  proof (cases r)
    case (Inl e)
    with ms 1 show ?thesis by (simp add: bind_def)
  next
    case (Inr x)
    obtain r2 s2 where fs: "f x s1 = (r2, s2)"
      by (cases "f x s1")
    have "extends s1 s2"
      by (rule growsD [OF assms(2) fs])
    with 1 have "extends s s2"
      by (rule extends_trans)
    with ms Inr fs show ?thesis by (simp add: bind_def)
  qed
qed

lemma grows_if: "grows a \<Longrightarrow> grows b \<Longrightarrow> grows (if c then a else b)"
  by simp

lemma grows_case_prod: "(\<And>a b. grows (f a b)) \<Longrightarrow> grows (case x of (a, b) \<Rightarrow> f a b)"
  by (cases x) simp

lemma grows_print: "grows (print_line l)"
  by (rule growsI) (simp add: print_line_def extends_def)

lemma grows_lift_rand: "grows (lift_rand g)"
  by (rule growsI) (simp add: lift_rand_def extends_def split: prod.splits)

lemma grows_db_call: "gen_call c \<Longrightarrow> grows (db_call E c)"
  by (rule growsI) (simp add: db_call_def Let_def extends_def split: reply.splits)

lemma grows_commit: "grows (commit E)"
  unfolding commit_def by (intro grows_bind grows_db_call grows_return) simp

lemma grows_for_from:
  assumes "\<And>i acc. grows (body i acc)"
  shows "grows (for_from i k body acc)"
  by (induction k arbitrary: i acc) (simp_all add: grows_return grows_bind assms)

lemma grows_insert_phase: "grows (insert_phase E g n)"
  unfolding insert_phase_def for_range_def insert_step_def
  by (intro grows_bind grows_for_from grows_lift_rand grows_db_call grows_if grows_commit
      grows_return) simp

lemma grows_batch_phase: "grows (batch_phase E g n)"
  unfolding batch_phase_def for_range_def batch_step_def Let_def
  by (intro grows_bind grows_for_from grows_case_prod grows_lift_rand grows_db_call grows_if
      grows_commit grows_return) simp_all

lemma grows_link_attempt: "grows (link_attempt E r rel)"
  by (rule growsI)
    (simp add: link_attempt_def db_call_def Let_def extends_def split: reply.splits)

lemma link_loop_extends:
  "extends s (snd (link_loop E n clase_ids sede_ids rel intentos s))"
proof (induction E n clase_ids sede_ids rel intentos s rule: link_loop.induct)
  case (1 E n clase_ids sede_ids rel intentos s)
  show ?case
  proof (cases "rel < n \<and> intentos < n * 4")
    case True
    obtain r1 s1 where l: "lift_rand (clase_has_sede_row (rnd E) clase_ids sede_ids) s = (r1, s1)"
      by (cases "lift_rand (clase_has_sede_row (rnd E) clase_ids sede_ids) s")
    have e1: "extends s s1"
      by (rule growsD [OF grows_lift_rand l])
    show ?thesis
    proof (cases r1)
      case (Inl e)
      with True l e1 show ?thesis
        by (subst link_loop.simps) simp
    next
      case (Inr r)
      obtain r2 s2 where a: "link_attempt E r rel s1 = (r2, s2)"
        by (cases "link_attempt E r rel s1")
      have e2: "extends s s2"
        using e1 growsD [OF grows_link_attempt a] by (rule extends_trans)
      show ?thesis
      proof (cases r2)
        case (Inl e)
        with True l Inr a e2 show ?thesis
          by (subst link_loop.simps) simp
      next
        case (Inr rel')
        have "extends s2 (snd (link_loop E n clase_ids sede_ids rel' (intentos + 1) s2))"
          using "1.IH" [OF True refl l [symmetric] \<open>r1 = Inr r\<close> a [symmetric] Inr] .
        with e2 have "extends s (snd (link_loop E n clase_ids sede_ids rel' (intentos + 1) s2))"
          by (rule extends_trans)
        with True l \<open>r1 = Inr r\<close> a Inr show ?thesis
          by (subst link_loop.simps) simp
      qed
    qed
  next
    case False
    then show ?thesis
      by (subst link_loop.simps) auto
  qed
qed

lemma grows_link_phase: "grows (link_phase E n clase_ids sede_ids)"
  unfolding link_phase_def
  by (intro grows_bind grows_case_prod grows_commit grows_print grows_return growsI
      link_loop_extends)

lemma grows_resumen: "grows (resumen a b c d e f g h)"
  unfolding resumen_def by (intro grows_bind grows_print)

lemma grows_generation: "grows (generation E n)"
  unfolding generation_def
  by (intro grows_bind grows_case_prod grows_insert_phase grows_batch_phase grows_link_phase
      grows_print grows_resumen)

lemma cleanup_shape:
  assumes "cleanup E s = (rc, s')"
  shows "out s' = out s \<and> conn s' = conn s \<and> cursor s' = cursor s \<and>
         (\<exists>cl. trace s' = trace s @ cl \<and> list_all (\<lambda>ev. cleanup_call (fst ev)) cl \<and>
            (Cursor_close \<in> fst ` set cl \<longleftrightarrow> cursor s) \<and>
            (Close \<in> fst ` set cl \<longrightarrow> conn s \<and> (\<exists>v. v \<noteq> 0 \<and> (Is_connected, Returns v) \<in> set cl)) \<and>
            (list_all returned cl \<longleftrightarrow> rc = Inr ()) \<and>
            (list_all returned cl \<longrightarrow>
               (Is_connected \<in> fst ` set cl \<longleftrightarrow> conn s) \<and>
               (Close \<in> fst ` set cl \<longleftrightarrow> conn s \<and> (\<exists>v. v \<noteq> 0 \<and> (Is_connected, Returns v) \<in> set cl))))"
proof (cases "cursor s")
  case True
  show ?thesis
  proof (cases "db E (trace s) Cursor_close")
    case (Raises e)
    with True assms show ?thesis
      by (auto simp: cleanup_def bind_def db_call_def Let_def)
  next
    case (Returns v)
    show ?thesis
    proof (cases "conn s")
      case False
      with True Returns assms show ?thesis
        by (auto simp: cleanup_def bind_def db_call_def Let_def)
    next
      case c: True
      show ?thesis
      proof (cases "db E (trace s @ [(Cursor_close, Returns v)]) Is_connected")
        case (Raises e)
        with True Returns c assms show ?thesis
          by (auto simp: cleanup_def bind_def db_call_def Let_def)
      next
        case r2: (Returns w)
        show ?thesis
        proof (cases "w = 0")
          case True
          with \<open>cursor s\<close> Returns c r2 assms show ?thesis
            by (auto simp: cleanup_def bind_def db_call_def Let_def return_def)
        next
          case False
          with \<open>cursor s\<close> Returns c r2 assms show ?thesis
            by (cases "db E (trace s @ [(Cursor_close, Returns v), (Is_connected, Returns w)]) Close")
              (auto simp: cleanup_def bind_def db_call_def Let_def return_def)
        qed
      qed
    qed
  qed
next
  case False
  show ?thesis
  proof (cases "conn s")
    case c: False
    with False assms show ?thesis
      by (auto simp: cleanup_def bind_def)
  next
    case c: True
    show ?thesis
    proof (cases "db E (trace s) Is_connected")
      case (Raises e)
      with False c assms show ?thesis
        by (auto simp: cleanup_def bind_def db_call_def Let_def)
    next
      case r2: (Returns w)
      show ?thesis
      proof (cases "w = 0")
        case True
        with False c r2 assms show ?thesis
          by (auto simp: cleanup_def bind_def db_call_def Let_def return_def)
      next
        case w: False
        with False c r2 assms show ?thesis
          by (cases "db E (trace s @ [(Is_connected, Returns w)]) Close")
            (auto simp: cleanup_def bind_def db_call_def Let_def return_def)
      qed
    qed
  qed
qed

lemma cleanup_raise:
  assumes "cleanup E s = (Inl e, s')"
  shows "\<exists>h c. cleanup_call c \<and> db E h c = Raises e"
proof -
  have "db E (trace s) Cursor_close = Raises e \<or>
        db E (trace s) Is_connected = Raises e \<or>
        (\<exists>v. db E (trace s @ [(Cursor_close, Returns v)]) Is_connected = Raises e) \<or>
        (\<exists>w. db E (trace s @ [(Is_connected, Returns w)]) Close = Raises e) \<or>
        (\<exists>v w. db E (trace s @ [(Cursor_close, Returns v), (Is_connected, Returns w)]) Close =
           Raises e)"
    using assms
    by (auto simp: cleanup_def bind_def db_call_def Let_def return_def
        split: if_splits reply.splits)
  then show ?thesis
    by (metis cleanup_call.simps(1-3))
qed

lemma cleanup_call_norows: "cleanup_call c \<Longrightarrow> rows_of c = []"
  by (cases c) simp_all

lemma referential_norows:
  assumes "referential n t" and "list_all (\<lambda>ev. rows_of (fst ev) = []) u"
  shows "referential n (t @ u)"
  using assms(2)
proof (induction u rule: rev_induct)
  case Nil
  show ?case using assms(1) by simp
next
  case (snoc ev u)
  then have "referential n ((t @ u) @ [ev])"
    unfolding referential_snoc by simp
  then show ?case by simp
qed

lemma in_order_norows:
  assumes "in_order t" and "list_all (\<lambda>ev. rows_of (fst ev) = []) u"
  shows "in_order (t @ u)"
  using assms(2)
proof (induction u rule: rev_induct)
  case Nil
  show ?case using assms(1) by simp
next
  case (snoc ev u)
  then have "in_order ((t @ u) @ [ev])"
    unfolding in_order_snoc by simp
  then show ?case by simp
qed

lemma sent_rows_norows:
  assumes "list_all (\<lambda>ev. rows_of (fst ev) = []) u"
  shows "sent_rows T u = []"
  using assms by (induction u) (simp_all add: event_sent_def)

lemma inserted_rows_norows:
  assumes "list_all (\<lambda>ev. rows_of (fst ev) = []) u"
  shows "inserted_rows T (t @ u) = inserted_rows T t"
  using sent_rows_norows [OF assms] by (simp add: not_sent_rows)

lemma completed_norows:
  assumes "completed n t ls" and "list_all (\<lambda>ev. rows_of (fst ev) = []) u"
  shows "completed n (t @ u) ls"
  using assms unfolding completed_def
  by (simp add: referential_norows in_order_norows inserted_rows_norows del: inserted_rows_append)

lemma try_body_result:
  assumes "try_body E cfg init_state = (r1, s1)"
  shows "case r1 of Inr u \<Rightarrow> completed N (trace s1) (out s1)
         | Inl e \<Rightarrow> good N (trace s1) (out s1) \<and> origin E e (trace s1)"
proof (cases r1)
  case (Inl e)
  with assms triple_Inl [OF try_body_master unsent_init, of E cfg e s1] show ?thesis by simp
next
  case (Inr u)
  with assms triple_Inr [OF try_body_master unsent_init, of E cfg u s1] show ?thesis by simp
qed

lemma grows_alters_loop: "grows (alters_loop E stmts a)"
proof (induction stmts arbitrary: a)
  case Nil
  show ?case by (simp add: grows_return)
next
  case (Cons stmt stmts)
  have "grows (alter_step E stmt a)"
    by (rule growsI) (simp add: alter_step_def db_call_def Let_def extends_def split: reply.splits)
  then show ?case
    by (simp add: grows_bind Cons)
qed

lemma grows_schema_relaxation: "grows (schema_relaxation E)"
  unfolding schema_relaxation_def
  by (intro grows_bind grows_alters_loop grows_if grows_commit grows_print)

lemma gen_call_not_Connect: "gen_call c \<Longrightarrow> c \<noteq> Connect cfg \<and> c \<noteq> Cursor"
  by (cases c) simp_all

lemma flags_extends:
  assumes "flags_ok cfg s" and "extends s s'"
  shows "flags_ok cfg s'"
proof -
  obtain u where u: "trace s' = trace s @ u" "list_all (\<lambda>ev. gen_call (fst ev)) u"
    and f: "conn s' = conn s" "cursor s' = cursor s"
    using assms(2) by (auto simp: extends_def)
  have "(c, rep) \<in> set u \<Longrightarrow> c \<noteq> Connect cfg \<and> c \<noteq> Cursor" for c rep
    using u(2) gen_call_not_Connect [of c cfg] by (auto simp: list_all_iff)
  then show ?thesis
    using assms(1) u(1) f unfolding flags_ok_def by auto
qed

lemma try_body_flags:
  assumes "try_body E cfg init_state = (r1, s1)"
  shows "flags_ok cfg s1"
proof (cases "db E [] (Connect cfg)")
  case (Raises e)
  then have "s1 = init_state\<lparr>trace := [(Connect cfg, Raises e)]\<rparr>"
    using assms by (simp add: try_body_def bind_def connect_def db_call_def init_state_def)
  then show ?thesis
    by (simp add: flags_ok_def init_state_def)
next
  case c: (Returns v)
  show ?thesis
  proof (cases "db E [(Connect cfg, Returns v)] Cursor")
    case (Raises e)
    then have "s1 = init_state\<lparr>trace := [(Connect cfg, Returns v), (Cursor, Raises e)], conn := True\<rparr>"
      using assms c
      by (simp add: try_body_def bind_def connect_def get_cursor_def db_call_def init_state_def)
    then show ?thesis
      by (simp add: flags_ok_def init_state_def)
  next
    case (Returns w)
    define sB where "sB = init_state\<lparr>trace := [(Connect cfg, Returns v), (Cursor, Returns w)],
      conn := True, cursor := True\<rparr>"
    define rest where "rest = bind (print_line (Conectado N)) (\<lambda>_.
      bind (schema_relaxation E) (\<lambda>_. generation E N))"
    have "try_body E cfg init_state = rest sB"
      using c Returns
      by (simp add: try_body_def bind_def connect_def get_cursor_def db_call_def init_state_def
          sB_def rest_def)
    then have "rest sB = (r1, s1)"
      using assms by simp
    moreover have "grows rest"
      unfolding rest_def
      by (intro grows_bind grows_print grows_schema_relaxation grows_generation)
    ultimately have "extends sB s1"
      by (rule growsD [rotated])
    moreover have "flags_ok cfg sB"
      by (auto simp: flags_ok_def sB_def init_state_def)
    ultimately show ?thesis
      by (rule flags_extends [rotated])
  qed
qed

lemma script_None:
  assumes "py_int (input_or (in_port C) ''3306'') = None"
  shows "script C E = (Inl ValueError, init_state)"
  using assms by (simp add: script_def)

lemma script_Inr:
  assumes "py_int (input_or (in_port C) ''3306'') = Some p"
    and "try_body E (make_config C p) init_state = (Inr u, s1)"
    and "cleanup E s1 = (rc, s2)"
  shows "script C E = (case rc of Inl e \<Rightarrow> Inl e | Inr _ \<Rightarrow> Inr (), s2)"
  using assms by (simp add: script_def try_finally_def except_Error_def split: sum.splits)

lemma script_Error:
  assumes "py_int (input_or (in_port C) ''3306'') = Some p"
    and "try_body E (make_config C p) init_state = (Inl e, s1)" and "is_Error e"
    and "cleanup E (s1\<lparr>out := out s1 @ [Error_durante_la_carga e]\<rparr>) = (rc, s2)"
  shows "script C E = (rc, s2)"
  using assms
  by (cases rc) (simp_all add: script_def try_finally_def except_Error_def print_line_def)

lemma script_other:
  assumes "py_int (input_or (in_port C) ''3306'') = Some p"
    and "try_body E (make_config C p) init_state = (Inl e, s1)" and "\<not> is_Error e"
    and "cleanup E s1 = (rc, s2)"
  shows "script C E = (case rc of Inl e' \<Rightarrow> Inl e' | Inr _ \<Rightarrow> Inl e, s2)"
  using assms by (simp add: script_def try_finally_def except_Error_def split: sum.splits)

lemma port_default: "py_int (input_or (in_port console_defaults) ''3306'') = Some 3306"
  by (simp add: console_defaults_def input_or_def strip_def py_int_def isspace_def isdigit_def)

lemma cleanup_norows:
  assumes "cleanup E s = (rc, s')"
  shows "out s' = out s \<and> (\<exists>cl. trace s' = trace s @ cl \<and> list_all (\<lambda>ev. rows_of (fst ev) = []) cl)"
proof -
  obtain cl where "out s' = out s" "trace s' = trace s @ cl" "list_all (\<lambda>ev. cleanup_call (fst ev)) cl"
    using cleanup_shape [OF assms] by blast
  then show ?thesis
    by (auto simp: list_all_iff cleanup_call_norows)
qed

lemma script_log:
  assumes "script C E = (res, s)"
  shows "referential N (trace s) \<and> in_order (trace s) \<and>
         (Carga_masiva_finalizada \<in> set (out s) \<longrightarrow> completed N (trace s) (out s))"
proof (cases "py_int (input_or (in_port C) ''3306'')")
  case None
  then have "s = init_state"
    using assms by (simp add: script_None)
  then show ?thesis
    by (simp add: init_state_def)
next
  case (Some p)
  obtain r1 s1 where t: "try_body E (make_config C p) init_state = (r1, s1)"
    by (cases "try_body E (make_config C p) init_state")
  note res = try_body_result [OF t]
  show ?thesis
  proof (cases r1)
    case (Inr u)
    obtain rc s2 where c: "cleanup E s1 = (rc, s2)"
      by (cases "cleanup E s1")
    obtain cl where cl: "out s2 = out s1" "trace s2 = trace s1 @ cl"
      "list_all (\<lambda>ev. rows_of (fst ev) = []) cl"
      using cleanup_norows [OF c] by blast
    have "s = s2"
      using script_Inr [OF Some t [unfolded Inr] c] assms by simp
    moreover have "completed N (trace s2) (out s2)"
      using res Inr cl completed_norows by simp
    ultimately show ?thesis
      by (simp add: completed_def)
  next
    case (Inl e)
    then have g: "good N (trace s1) (out s1)"
      using res by simp
    show ?thesis
    proof (cases "is_Error e")
      case True
      obtain rc s2 where c: "cleanup E (s1\<lparr>out := out s1 @ [Error_durante_la_carga e]\<rparr>) = (rc, s2)"
        by (cases "cleanup E (s1\<lparr>out := out s1 @ [Error_durante_la_carga e]\<rparr>)")
      obtain cl where cl: "out s2 = out s1 @ [Error_durante_la_carga e]" "trace s2 = trace s1 @ cl"
        "list_all (\<lambda>ev. rows_of (fst ev) = []) cl"
        using cleanup_norows [OF c] by auto
      have "s = s2"
        using script_Error [OF Some t [unfolded Inl] True c] assms by simp
      moreover have "Carga_masiva_finalizada \<notin> set (out s2)"
        using g cl(1) by (auto simp: good_def list_ex_iff)
      ultimately show ?thesis
        using g cl by (simp add: good_def referential_norows in_order_norows)
    next
      case False
      obtain rc s2 where c: "cleanup E s1 = (rc, s2)"
        by (cases "cleanup E s1")
      obtain cl where cl: "out s2 = out s1" "trace s2 = trace s1 @ cl"
        "list_all (\<lambda>ev. rows_of (fst ev) = []) cl"
        using cleanup_norows [OF c] by blast
      have "s = s2"
        using script_other [OF Some t [unfolded Inl] False c] assms by simp
      moreover have "Carga_masiva_finalizada \<notin> set (out s2)"
        using g cl(1) by (auto simp: good_def list_ex_iff)
      ultimately show ?thesis
        using g cl by (simp add: good_def referential_norows in_order_norows)
    qed
  qed
qed

lemma completed_count:
  assumes "completed n t ls" and "T \<noteq> Clase_has_sede"
  shows "length (inserted_rows T t) = n"
proof -
  obtain rel where "\<And>T. length (inserted_rows T t) = (if T = Clase_has_sede then rel else n)"
    using assms(1) unfolding completed_def by blast
  then show ?thesis
    using assms(2) by simp
qed

lemma cleanup_call_unabsorbed: "cleanup_call c \<Longrightarrow> unabsorbed c"
  by (cases c) simp_all

lemma script_completes:
  assumes port: "py_int (input_or (in_port C) ''3306'') = Some p"
    and H: "\<And>h c e. db E h c = Raises e \<Longrightarrow> \<not> unabsorbed c"
  shows "\<exists>s. script C E = (Inr (), s) \<and> completed N (trace s) (out s)"
proof -
  obtain r1 s1 where t: "try_body E (make_config C p) init_state = (r1, s1)"
    by (cases "try_body E (make_config C p) init_state")
  note res = try_body_result [OF t]
  have "\<exists>u. r1 = Inr u"
  proof (cases r1)
    case (Inl e)
    with res have "origin E e (trace s1)" by simp
    then show ?thesis
      using H by (auto simp: origin_def)
  next
    case (Inr u)
    then show ?thesis by blast
  qed
  then obtain u where r1: "r1 = Inr u" by blast
  obtain rc s2 where c: "cleanup E s1 = (rc, s2)"
    by (cases "cleanup E s1")
  have "rc = Inr ()"
  proof (cases rc)
    case (Inl e)
    then obtain h c' where "cleanup_call c'" "db E h c' = Raises e"
      using cleanup_raise c by blast
    then show ?thesis
      using H cleanup_call_unabsorbed by blast
  next
    case (Inr x)
    then show ?thesis by simp
  qed
  then have s: "script C E = (Inr (), s2)"
    using script_Inr [OF port t [unfolded r1] c] by simp
  obtain cl where "out s2 = out s1" "trace s2 = trace s1 @ cl"
    "list_all (\<lambda>ev. rows_of (fst ev) = []) cl"
    using cleanup_norows [OF c] by blast
  then have "completed N (trace s2) (out s2)"
    using res r1 completed_norows by simp
  with s show ?thesis by blast
qed

lemma fk_earlier: "(T, v) \<in> set (foreign_keys r) \<Longrightarrow> phase_no T < phase_no (table_of r)"
  by (cases r) auto

section \<open>The claims\<close>

subsection \<open>C8: the length of \<open>rand_text\<close>\<close>

text \<open>
  C8, as stated, says that for \<open>0 < min_len \<le> max_len\<close> the string returned by
  \<open>rand_text(min_len, max_len)\<close> has a length between \<open>min_len\<close> and \<open>max_len\<close>.
  The lower bound fails: the drawn characters include the space, and \<open>strip()\<close>
  removes spaces at both ends.  With every draw equal to 52 the call
  \<open>rand_text(5, 25)\<close> draws the length 15, fifteen spaces, and returns the empty
  string.
\<close>

theorem rand_text_shorter_than_min_len:
  "\<exists>txt p. rand_text (\<lambda>_. 52) 5 25 0 = (Inr txt, p) \<and> \<not> (5 \<le> int (length txt))"
proof -
  have "rand_text (\<lambda>_. 52) 5 25 0 = (Inr [], 16)"
    by code_simp
  then show ?thesis by simp
qed

text \<open>
  C8, amended: for \<open>0 < min_len \<le> max_len\<close> the call never raises; the length \<open>l\<close>
  drawn is between \<open>min_len\<close> and \<open>max_len\<close>, exactly \<open>l\<close> characters are drawn, and
  the string returned is these characters stripped, so its length is at most \<open>l\<close>,
  hence at most \<open>max_len\<close> (it can be shorter than \<open>min_len\<close>).
\<close>

theorem rand_text_length:
  assumes "0 < min_len" and "min_len \<le> max_len"
  shows "\<exists>l cs p'. min_len \<le> l \<and> l \<le> max_len \<and>
           random_choices R (ascii_letters @ '' '') (nat l) (Suc p) = (Inr cs, p') \<and>
           int (length cs) = l \<and>
           rand_text R min_len max_len p = (Inr (strip cs), p') \<and>
           int (length (strip cs)) \<le> l"
proof -
  obtain l where l: "random_randint R min_len max_len p = (Inr l, Suc p)"
    "min_len \<le> l" "l \<le> max_len"
    using random_randint_range [OF assms(2)] by blast
  obtain cs p' where cs: "random_choices R (ascii_letters @ '' '') (nat l) (Suc p) = (Inr cs, p')"
    "length cs = nat l"
    using random_choices_length by blast
  have "int (length (strip cs)) \<le> int (length cs)"
    using strip_length_le [of cs] by simp
  with l cs assms show ?thesis
    by (auto simp: rand_text_def rbind_def rreturn_def)
qed

theorem rand_text_length_witness:
  "(0::int) < 4 \<and> (4::int) \<le> 10 \<and>
   (\<exists>l cs p'. 4 \<le> l \<and> l \<le> 10 \<and>
      random_choices (\<lambda>_. 0) (ascii_letters @ '' '') (nat l) (Suc 0) = (Inr cs, p') \<and>
      int (length cs) = l \<and>
      rand_text (\<lambda>_. 0) 4 10 0 = (Inr (strip cs), p') \<and>
      int (length (strip cs)) \<le> l)"
  using rand_text_length [of 4 10 "\<lambda>_. 0" 0] by simp

text \<open>
  C1.  In every run, whenever a call sends a row \<open>r\<close> (position \<open>i\<close> of the trace) and
  \<open>r\<close> has a foreign key \<open>v\<close> into table \<open>T\<close>: \<open>v\<close> is one of the identifiers
  collected from the inserts into \<open>T\<close> made before, exactly \<open>N\<close> identifiers of \<open>T\<close> have
  been collected by then, and from that call on no row of \<open>T\<close> is sent any more.
\<close>

theorem referential_integrity:
  assumes "script C E = (res, s)" and "i < length (trace s)"
    and "r \<in> set (rows_of (fst (trace s ! i)))" and "(T, v) \<in> set (foreign_keys r)"
  shows "v \<in> set (inserted_ids T (take i (trace s))) \<and>
         length (inserted_ids T (take i (trace s))) = N \<and>
         (\<forall>j r'. i \<le> j \<and> j < length (trace s) \<and> r' \<in> set (rows_of (fst (trace s ! j))) \<longrightarrow>
                 table_of r' \<noteq> T)"
proof -
  have ref: "referential N (trace s)" and ord: "in_order (trace s)"
    using script_log [OF assms(1)] by simp_all
  have "fk_ok N (take i (trace s)) r"
    using ref assms(2,3) by (auto simp: referential_def list_all_iff)
  then have 1: "v \<in> set (inserted_ids T (take i (trace s))) \<and>
                length (inserted_ids T (take i (trace s))) = N"
    using assms(4) by (auto simp: fk_ok_def list_all_iff)
  have 2: "table_of r' \<noteq> T"
    if "i \<le> j" "j < length (trace s)" "r' \<in> set (rows_of (fst (trace s ! j)))" for j r'
  proof -
    have "phase_no (table_of r) \<le> phase_no (table_of r')"
      using ord that assms(3) unfolding in_order_def by blast
    then show ?thesis
      using fk_earlier [OF assms(4)] by auto
  qed
  from 1 2 show ?thesis by blast
qed

theorem referential_integrity_witness:
  "\<exists>s i r T v.
     script console_defaults \<lparr>rnd = always 0, db = db_always (Returns 7)\<rparr> = (Inr (), s) \<and>
     i < length (trace s) \<and> r \<in> set (rows_of (fst (trace s ! i))) \<and>
     (T, v) \<in> set (foreign_keys r) \<and>
     v \<in> set (inserted_ids T (take i (trace s))) \<and>
     length (inserted_ids T (take i (trace s))) = N \<and>
     (\<forall>j r'. i \<le> j \<and> j < length (trace s) \<and> r' \<in> set (rows_of (fst (trace s ! j))) \<longrightarrow>
             table_of r' \<noteq> T)"
proof -
  let ?E = "\<lparr>rnd = always 0, db = db_always (Returns 7)\<rparr>"
  obtain s where s: "script console_defaults ?E = (Inr (), s)" "completed N (trace s) (out s)"
    using script_completes [OF port_default, of ?E] by (auto simp: db_always_def)
  have "length (inserted_rows Clase (trace s)) = N"
    using completed_count [OF s(2), of Clase] by simp
  then have "inserted_rows Clase (trace s) \<noteq> []"
    by (auto simp: N_def)
  then obtain r where "r \<in> set (inserted_rows Clase (trace s))"
    by (cases "inserted_rows Clase (trace s)") auto
  then have "r \<in> set (sent_rows Clase (trace s))"
    by (auto simp: inserted_rows_def sent_rows_def)
  then obtain i where i: "i < length (trace s)" "r \<in> set (rows_of (fst (trace s ! i)))"
    "table_of r = Clase"
    by (auto simp: sent_rows_iff)
  then obtain nombre d where "r = Clase_row nombre d"
    by (cases r) simp_all
  then have fk: "(Docente, d) \<in> set (foreign_keys r)"
    by simp
  from referential_integrity [OF s(1) i(1,2) fk] s(1) i(1,2) fk show ?thesis
    by blast
qed

text \<open>
  C3.  In a run that reaches the summary, exactly \<open>N\<close> rows have been inserted into
  each of sede, docente, clase, matricula, alumno, pago and asistencia, at most \<open>N\<close>
  into clase_has_sede, and the eight numbers of the summary, which is the last
  thing printed, are the numbers of rows inserted into the eight tables.
\<close>

theorem summary_counts:
  assumes "script C E = (res, s)" and "Carga_masiva_finalizada \<in> set (out s)"
  shows "length (inserted_rows Sede (trace s)) = N \<and>
         length (inserted_rows Docente (trace s)) = N \<and>
         length (inserted_rows Clase (trace s)) = N \<and>
         length (inserted_rows Matricula (trace s)) = N \<and>
         length (inserted_rows Alumno (trace s)) = N \<and>
         length (inserted_rows Clase_has_sede (trace s)) \<le> N \<and>
         length (inserted_rows Pago (trace s)) = N \<and>
         length (inserted_rows Asistencia (trace s)) = N \<and>
         (\<exists>before. out s = before @
            [Carga_masiva_finalizada,
             Resumen_sedes (length (inserted_rows Sede (trace s))),
             Resumen_docentes (length (inserted_rows Docente (trace s))),
             Resumen_clases (length (inserted_rows Clase (trace s))),
             Resumen_matriculas (length (inserted_rows Matricula (trace s))),
             Resumen_alumnos (length (inserted_rows Alumno (trace s))),
             Resumen_clase_has_sede (length (inserted_rows Clase_has_sede (trace s))),
             Resumen_pagos (length (inserted_rows Pago (trace s))),
             Resumen_asistencias (length (inserted_rows Asistencia (trace s)))])"
proof -
  have "completed N (trace s) (out s)"
    using script_log [OF assms(1)] assms(2) by simp
  then obtain before rel where
    o: "out s = before @
          [Carga_masiva_finalizada, Resumen_sedes N, Resumen_docentes N, Resumen_clases N,
           Resumen_matriculas N, Resumen_alumnos N, Resumen_clase_has_sede rel,
           Resumen_pagos N, Resumen_asistencias N]"
    and rel: "rel \<le> N"
    and c: "\<And>T. length (inserted_rows T (trace s)) = (if T = Clase_has_sede then rel else N)"
    unfolding completed_def by blast
  show ?thesis
    using o rel by (simp add: c)
qed

theorem summary_counts_witness:
  "\<exists>s. script console_defaults \<lparr>rnd = always 0, db = db_always (Returns 7)\<rparr> = (Inr (), s) \<and>
       Carga_masiva_finalizada \<in> set (out s) \<and>
       length (inserted_rows Sede (trace s)) = N \<and>
       length (inserted_rows Pago (trace s)) = N \<and>
       length (inserted_rows Clase_has_sede (trace s)) \<le> N"
proof -
  let ?E = "\<lparr>rnd = always 0, db = db_always (Returns 7)\<rparr>"
  obtain s where s: "script console_defaults ?E = (Inr (), s)" "completed N (trace s) (out s)"
    using script_completes [OF port_default, of ?E] by (auto simp: db_always_def)
  have carga: "Carga_masiva_finalizada \<in> set (out s)"
    using s(2) by (auto simp: completed_def)
  from summary_counts [OF s(1) carga] s(1) carga show ?thesis
    by blast
qed

end
